theory Spec2Isabelle
  imports Main "HOL-Library.Word" "HOL-Library.List_Lexorder" "HOL-Library.Char_ord"
    "HOL-Library.Multiset" "HOL-Library.AList"
begin

section \<open>Data model (types.ts)\<close>

text \<open>
  A JavaScript string is the sequence of its UTF-16 code units, a \<open>Buffer\<close> is a sequence of
  bytes.  \<open>js\<close> writes a string literal.  An optional field of a TypeScript object type is
  an \<^typ>\<open>'a option\<close>.  Field names that clash with Isabelle keywords or constants carry a
  suffix: \<open>id\<close>, \<open>start\<close> and \<open>end\<close> of \<open>GogEvent\<close> are \<open>id_e\<close>, \<open>start_e\<close>, \<open>end_e\<close>;
  \<open>start\<close> and \<open>end\<close> of \<open>SourceRef\<close> are \<open>start_s\<close>, \<open>end_s\<close>.
\<close>

type_synonym jsstring = "16 word list"

type_synonym bytes = "8 word list"

definition ch :: "char \<Rightarrow> 16 word" where
  "ch c = of_nat (of_char c)"

definition js :: "string \<Rightarrow> jsstring" where
  "js s = map ch s"

datatype OverlapPolicy = Skip | Allow

record GogEventTime =
  dateTime :: "jsstring option"
  date :: "jsstring option"
  timeZone :: "jsstring option"

record Reminders =
  useDefault :: "bool option"
  overrides :: "(jsstring \<times> int) list option"

record GogEvent =
  id_e :: jsstring
  etag :: "jsstring option"
  updated :: "jsstring option"
  summary :: "jsstring option"
  description :: "jsstring option"
  status :: "jsstring option"
  visibility :: "jsstring option"
  transparency :: "jsstring option"
  start_e :: GogEventTime
  end_e :: GogEventTime
  reminders :: "Reminders option"

record SourceRef =
  srcAccount :: jsstring
  srcCalendar :: jsstring
  eventId :: jsstring
  start_s :: jsstring
  end_s :: jsstring
  title :: jsstring

record DesiredHold =
  source :: SourceRef
  event :: GogEvent

datatype ReconcileAction =
    Create DesiredHold
  | Update GogEvent DesiredHold
  | Delete GogEvent
  | SkipOverlap DesiredHold jsstring

record ReconcilePlan =
  actions :: "ReconcileAction list"
  desiredCount :: nat
  existingManagedCount :: nat
  capped :: bool

section \<open>Metadata codec (metadata.ts)\<close>

definition METADATA_PREFIX :: jsstring where
  "METADATA_PREFIX = js ''SYNCV1:''"

definition holdKey :: "SourceRef \<Rightarrow> jsstring" where
  "holdKey s = srcAccount s @ js ''::'' @ srcCalendar s @ js ''::'' @ eventId s @ js ''::''
     @ start_s s @ js ''::'' @ end_s s"

text \<open>A field is \<open>colon_safe\<close> when the delimiter cannot be read into it: it holds no
  \<open>::\<close> and does not end in a colon.\<close>

fun has_delim :: "jsstring \<Rightarrow> bool" where
  "has_delim (a # b # r) = ((a = ch CHR '':'' \<and> b = ch CHR '':'') \<or> has_delim (b # r))"
| "has_delim _ = False"

definition colon_safe :: "jsstring \<Rightarrow> bool" where
  "colon_safe f = (\<not> has_delim f \<and> (f = [] \<or> last f \<noteq> ch CHR '':''))"

definition key_fields_safe :: "SourceRef \<Rightarrow> bool" where
  "key_fields_safe s = (colon_safe (srcAccount s) \<and> colon_safe (srcCalendar s)
     \<and> colon_safe (eventId s) \<and> colon_safe (start_s s))"

definition same_occurrence :: "SourceRef \<Rightarrow> SourceRef \<Rightarrow> bool" where
  "same_occurrence s1 s2 = (srcAccount s1 = srcAccount s2 \<and> srcCalendar s1 = srcCalendar s2
     \<and> eventId s1 = eventId s2 \<and> start_s s1 = start_s s2 \<and> end_s s1 = end_s s2)"

subsection \<open>UTF-8, as Node's \<open>Buffer\<close> converts it\<close>

text \<open>
  \<open>Buffer.from(s, "utf8")\<close> writes the code points of the string in UTF-8: a lead surrogate
  followed by a trail surrogate is one code point, and a surrogate that stands alone is written
  as U+FFFD.  \<open>toString("utf8")\<close> reads UTF-8 as the decoder of the WHATWG Encoding
  Standard does: a sequence that is not well formed gives U+FFFD for its longest prefix that
  could start a well-formed sequence (one byte, when there is no such prefix), and reading goes
  on at the byte that did not fit.  \<open>utf8_first b bs\<close> reads the first code point of \<open>b # bs\<close> and
  tells how many bytes of \<open>bs\<close> it took.
\<close>

definition lead_surrogate :: "nat \<Rightarrow> bool" where
  "lead_surrogate u = (55296 \<le> u \<and> u \<le> 56319)"

definition trail_surrogate :: "nat \<Rightarrow> bool" where
  "trail_surrogate u = (56320 \<le> u \<and> u \<le> 57343)"

fun code_points :: "nat list \<Rightarrow> nat list" where
  "code_points (u # v # r) =
     (if lead_surrogate u \<and> trail_surrogate v
      then (65536 + (u - 55296) * 1024 + (v - 56320)) # code_points r
      else (if lead_surrogate u \<or> trail_surrogate u then 65533 else u) # code_points (v # r))"
| "code_points [u] = [if lead_surrogate u \<or> trail_surrogate u then 65533 else u]"
| "code_points [] = []"

definition utf8_encode :: "nat \<Rightarrow> nat list" where
  "utf8_encode cp =
     (if cp < 128 then [cp]
      else if cp < 2048 then [192 + cp div 64, 128 + cp mod 64]
      else if cp < 65536 then [224 + cp div 4096, 128 + (cp div 64) mod 64, 128 + cp mod 64]
      else [240 + cp div 262144, 128 + (cp div 4096) mod 64, 128 + (cp div 64) mod 64,
            128 + cp mod 64])"

definition Buffer_from_utf8 :: "jsstring \<Rightarrow> bytes" where
  "Buffer_from_utf8 s = map of_nat (concat (map utf8_encode (code_points (map unat s))))"

definition continuation :: "nat \<Rightarrow> bool" where
  "continuation b = (128 \<le> b \<and> b \<le> 191)"

definition utf8_first :: "nat \<Rightarrow> nat list \<Rightarrow> nat \<times> nat" where
  "utf8_first b bs =
     (if b < 128 then (b, 0)
      else if 194 \<le> b \<and> b \<le> 223 then
        (case bs of
           c # _ \<Rightarrow> if continuation c then ((b - 192) * 64 + (c - 128), 1) else (65533, 0)
         | [] \<Rightarrow> (65533, 0))
      else if 224 \<le> b \<and> b \<le> 239 then
        (case bs of
           c # r \<Rightarrow>
             if (if b = 224 then 160 else 128) \<le> c \<and> c \<le> (if b = 237 then 159 else 191) then
               (case r of
                  d # _ \<Rightarrow>
                    if continuation d
                    then ((b - 224) * 4096 + (c - 128) * 64 + (d - 128), 2)
                    else (65533, 1)
                | [] \<Rightarrow> (65533, 1))
             else (65533, 0)
         | [] \<Rightarrow> (65533, 0))
      else if 240 \<le> b \<and> b \<le> 244 then
        (case bs of
           c # r \<Rightarrow>
             if (if b = 240 then 144 else 128) \<le> c \<and> c \<le> (if b = 244 then 143 else 191) then
               (case r of
                  d # r' \<Rightarrow>
                    if continuation d then
                      (case r' of
                         e # _ \<Rightarrow>
                           if continuation e
                           then ((b - 240) * 262144 + (c - 128) * 4096 + (d - 128) * 64
                                 + (e - 128), 3)
                           else (65533, 2)
                       | [] \<Rightarrow> (65533, 2))
                    else (65533, 1)
                | [] \<Rightarrow> (65533, 1))
             else (65533, 0)
         | [] \<Rightarrow> (65533, 0))
      else (65533, 0))"

fun utf8_decode :: "nat list \<Rightarrow> nat list" where
  "utf8_decode [] = []"
| "utf8_decode (b # bs) = fst (utf8_first b bs) # utf8_decode (drop (snd (utf8_first b bs)) bs)"

definition utf16_encode :: "nat \<Rightarrow> nat list" where
  "utf16_encode cp =
     (if cp < 65536 then [cp]
      else [55296 + (cp - 65536) div 1024, 56320 + (cp - 65536) mod 1024])"

definition toString_utf8 :: "bytes \<Rightarrow> jsstring" where
  "toString_utf8 b = map of_nat (concat (map utf16_encode (utf8_decode (map unat b))))"

subsection \<open>base64url, as Node's \<open>Buffer\<close> implements it\<close>

text \<open>
  \<open>toString("base64url")\<close> writes no padding.  \<open>Buffer.from(s, "base64url")\<close> is lenient: it
  reads the low byte of each code unit, accepts both alphabets, skips every other character
  and stops at the first \<open>=\<close>.
\<close>

definition enc6 :: "nat \<Rightarrow> nat" where
  "enc6 n = (if n < 26 then n + 65 else if n < 52 then n + 71
     else if n < 62 then n - 4 else if n = 62 then 45 else 95)"

definition unbase64 :: "nat \<Rightarrow> nat option" where
  "unbase64 n =
     (if 65 \<le> n \<and> n \<le> 90 then Some (n - 65)
      else if 97 \<le> n \<and> n \<le> 122 then Some (n - 71)
      else if 48 \<le> n \<and> n \<le> 57 then Some (n + 4)
      else if n = 45 \<or> n = 43 then Some 62
      else if n = 95 \<or> n = 47 then Some 63
      else None)"

fun to_sextets :: "nat list \<Rightarrow> nat list" where
  "to_sextets (x # y # z # r) =
     [x div 4, (x mod 4) * 16 + y div 16, (y mod 16) * 4 + z div 64, z mod 64] @ to_sextets r"
| "to_sextets [x, y] = [x div 4, (x mod 4) * 16 + y div 16, (y mod 16) * 4]"
| "to_sextets [x] = [x div 4, (x mod 4) * 16]"
| "to_sextets [] = []"

definition base64url_encode :: "bytes \<Rightarrow> jsstring" where
  "base64url_encode b = map (\<lambda>n. of_nat (enc6 n)) (to_sextets (map unat b))"

fun legal_sextets :: "nat list \<Rightarrow> nat list" where
  "legal_sextets [] = []"
| "legal_sextets (c # cs) = (case unbase64 c of
       Some n \<Rightarrow> n # legal_sextets cs
     | None \<Rightarrow> if c = 61 then [] else legal_sextets cs)"

fun from_sextets :: "nat list \<Rightarrow> nat list" where
  "from_sextets (a # b # c # d # r) =
     [a * 4 + b div 16, (b mod 16) * 16 + c div 4, (c mod 4) * 64 + d] @ from_sextets r"
| "from_sextets [a, b, c] = [a * 4 + b div 16, (b mod 16) * 16 + c div 4]"
| "from_sextets [a, b] = [a * 4 + b div 16]"
| "from_sextets _ = []"

definition base64url_decode :: "jsstring \<Rightarrow> bytes" where
  "base64url_decode s =
     map of_nat (from_sextets (legal_sextets (map (\<lambda>u. unat u mod 256) s)))"

subsection \<open>JSON.stringify and JSON.parse\<close>

text \<open>
  \<open>JSON_stringify\<close> is \<open>JSON.stringify\<close> on an object holding the six string fields in
  the order of the type.  It quotes a string by its code points: a surrogate pair is kept, a
  surrogate that stands alone is written as a \<open>\u\<close> escape.  \<open>JSON_parse\<close> is a
  recursive-descent parser of the JSON grammar; its recursion is bounded by a fuel of
  \<open>2 * length text + 2\<close>, which is never exhausted (\<open>JSON_parse_fuel\<close> below).  A number is
  kept as its lexeme.  \<open>None\<close> is the \<open>SyntaxError\<close>.
\<close>

datatype json = JNull | JBool bool | JNum jsstring | JStr jsstring
  | JArr "json list" | JObj "(jsstring \<times> json) list"

definition hexdigit :: "nat \<Rightarrow> 16 word" where
  "hexdigit d = of_nat (if d < 10 then 48 + d else 87 + d)"

definition unicode_escape :: "nat \<Rightarrow> jsstring" where
  "unicode_escape n =
     [ch CHR 0x5C, ch CHR ''u'', hexdigit (n div 4096), hexdigit ((n div 256) mod 16),
      hexdigit ((n div 16) mod 16), hexdigit (n mod 16)]"

definition quote_unit :: "16 word \<Rightarrow> jsstring" where
  "quote_unit u = (let n = unat u in
     if n = 34 then [ch CHR 0x5C, ch CHR 0x22]
     else if n = 92 then [ch CHR 0x5C, ch CHR 0x5C]
     else if n = 8 then [ch CHR 0x5C, ch CHR ''b'']
     else if n = 12 then [ch CHR 0x5C, ch CHR ''f'']
     else if n = 10 then [ch CHR 0x5C, ch CHR ''n'']
     else if n = 13 then [ch CHR 0x5C, ch CHR ''r'']
     else if n = 9 then [ch CHR 0x5C, ch CHR ''t'']
     else if n < 32 \<or> lead_surrogate n \<or> trail_surrogate n then unicode_escape n
     else [u])"

fun quote_units :: "jsstring \<Rightarrow> jsstring" where
  "quote_units (u # v # r) =
     (if lead_surrogate (unat u) \<and> trail_surrogate (unat v) then u # v # quote_units r
      else quote_unit u @ quote_units (v # r))"
| "quote_units [u] = quote_unit u"
| "quote_units [] = []"

definition QuoteJSONString :: "jsstring \<Rightarrow> jsstring" where
  "QuoteJSONString s = ch CHR 0x22 # quote_units s @ [ch CHR 0x22]"

definition JSON_stringify :: "SourceRef \<Rightarrow> jsstring" where
  "JSON_stringify s =
     js ''{'' @ QuoteJSONString (js ''srcAccount'') @ js '':'' @ QuoteJSONString (srcAccount s)
     @ js '','' @ QuoteJSONString (js ''srcCalendar'') @ js '':'' @ QuoteJSONString (srcCalendar s)
     @ js '','' @ QuoteJSONString (js ''eventId'') @ js '':'' @ QuoteJSONString (eventId s)
     @ js '','' @ QuoteJSONString (js ''start'') @ js '':'' @ QuoteJSONString (start_s s)
     @ js '','' @ QuoteJSONString (js ''end'') @ js '':'' @ QuoteJSONString (end_s s)
     @ js '','' @ QuoteJSONString (js ''title'') @ js '':'' @ QuoteJSONString (title s)
     @ js ''}''"

definition is_ws :: "16 word \<Rightarrow> bool" where
  "is_ws c = (unat c = 32 \<or> unat c = 9 \<or> unat c = 10 \<or> unat c = 13)"

definition skip_ws :: "jsstring \<Rightarrow> jsstring" where
  "skip_ws s = dropWhile is_ws s"

definition hexval :: "16 word \<Rightarrow> nat option" where
  "hexval c = (let n = unat c in
     if 48 \<le> n \<and> n \<le> 57 then Some (n - 48)
     else if 97 \<le> n \<and> n \<le> 102 then Some (n - 87)
     else if 65 \<le> n \<and> n \<le> 70 then Some (n - 55)
     else None)"

definition hex4 :: "16 word \<Rightarrow> 16 word \<Rightarrow> 16 word \<Rightarrow> 16 word \<Rightarrow> nat option" where
  "hex4 a b c d = (case (hexval a, hexval b, hexval c, hexval d) of
       (Some x, Some y, Some z, Some w) \<Rightarrow> Some (((x * 16 + y) * 16 + z) * 16 + w)
     | _ \<Rightarrow> None)"

definition unescape :: "16 word \<Rightarrow> 16 word option" where
  "unescape e =
     (if e = ch CHR 0x22 \<or> e = ch CHR 0x5C \<or> e = ch CHR ''/'' then Some e
      else if e = ch CHR ''b'' then Some 8
      else if e = ch CHR ''f'' then Some 12
      else if e = ch CHR ''n'' then Some 10
      else if e = ch CHR ''r'' then Some 13
      else if e = ch CHR ''t'' then Some 9
      else None)"

definition prepend ::
  "jsstring \<Rightarrow> (jsstring \<times> jsstring) option \<Rightarrow> (jsstring \<times> jsstring) option" where
  "prepend p res = (case res of None \<Rightarrow> None | Some (str, rest) \<Rightarrow> Some (p @ str, rest))"

fun parse_chars :: "jsstring \<Rightarrow> (jsstring \<times> jsstring) option" where
  "parse_chars [] = None"
| "parse_chars (c # cs) =
    (if c = ch CHR 0x22 then Some ([], cs)
     else if c = ch CHR 0x5C then
       (case cs of
          [] \<Rightarrow> None
        | e # es \<Rightarrow>
            if e = ch CHR ''u'' then
              (case es of
                 h1 # h2 # h3 # h4 # r \<Rightarrow>
                   (case hex4 h1 h2 h3 h4 of
                      None \<Rightarrow> None
                    | Some n \<Rightarrow> prepend [of_nat n] (parse_chars r))
               | _ \<Rightarrow> None)
            else (case unescape e of
                    None \<Rightarrow> None
                  | Some x \<Rightarrow> prepend [x] (parse_chars es)))
     else if unat c < 32 then None
     else prepend [c] (parse_chars cs))"

definition is_digit :: "16 word \<Rightarrow> bool" where
  "is_digit c = (48 \<le> unat c \<and> unat c \<le> 57)"

definition parse_digits1 :: "jsstring \<Rightarrow> (jsstring \<times> jsstring) option" where
  "parse_digits1 s = (if takeWhile is_digit s = [] then None
     else Some (takeWhile is_digit s, dropWhile is_digit s))"

definition parse_int_part :: "jsstring \<Rightarrow> (jsstring \<times> jsstring) option" where
  "parse_int_part s = (case s of
       [] \<Rightarrow> None
     | c # r \<Rightarrow> if c = ch CHR ''0'' then Some ([c], r)
                else if is_digit c then Some (c # takeWhile is_digit r, dropWhile is_digit r)
                else None)"

definition parse_frac :: "jsstring \<Rightarrow> (jsstring \<times> jsstring) option" where
  "parse_frac s = (case s of
       c # r \<Rightarrow> if c = ch CHR ''.'' then prepend [c] (parse_digits1 r) else Some ([], s)
     | [] \<Rightarrow> Some ([], s))"

definition parse_exp :: "jsstring \<Rightarrow> (jsstring \<times> jsstring) option" where
  "parse_exp s = (case s of
       c # r \<Rightarrow>
         if c = ch CHR ''e'' \<or> c = ch CHR ''E'' then
           (case r of
              g # r' \<Rightarrow> if g = ch CHR ''+'' \<or> g = ch CHR ''-'' then prepend [c, g] (parse_digits1 r')
                         else prepend [c] (parse_digits1 r)
            | [] \<Rightarrow> None)
         else Some ([], s)
     | [] \<Rightarrow> Some ([], s))"

definition parse_number :: "jsstring \<Rightarrow> (jsstring \<times> jsstring) option" where
  "parse_number s =
     (let (sign, s1) = (case s of c # r \<Rightarrow> if c = ch CHR ''-'' then ([c], r) else ([], s)
                                 | [] \<Rightarrow> ([], s))
      in case parse_int_part s1 of
           None \<Rightarrow> None
         | Some (ip, s2) \<Rightarrow>
             (case parse_frac s2 of
                None \<Rightarrow> None
              | Some (fp, s3) \<Rightarrow> prepend (sign @ ip @ fp) (parse_exp s3)))"

definition parse_literal :: "jsstring \<Rightarrow> json \<Rightarrow> jsstring \<Rightarrow> (json \<times> jsstring) option" where
  "parse_literal lit v s =
     (if take (length lit) s = lit then Some (v, drop (length lit) s) else None)"

fun parse_value :: "nat \<Rightarrow> jsstring \<Rightarrow> (json \<times> jsstring) option"
  and parse_elems :: "nat \<Rightarrow> jsstring \<Rightarrow> (json list \<times> jsstring) option"
  and parse_members :: "nat \<Rightarrow> jsstring \<Rightarrow> ((jsstring \<times> json) list \<times> jsstring) option"
where
  "parse_value 0 s = None"
| "parse_value (Suc n) s =
     (case skip_ws s of
        [] \<Rightarrow> None
      | c # r \<Rightarrow>
          if c = ch CHR ''{'' then
            (case skip_ws r of
               [] \<Rightarrow> None
             | c' # r' \<Rightarrow>
                 if c' = ch CHR ''}'' then Some (JObj [], r')
                 else (case parse_members n (c' # r') of
                         None \<Rightarrow> None
                       | Some (kvs, r'') \<Rightarrow> Some (JObj kvs, r'')))
          else if c = ch CHR ''['' then
            (case skip_ws r of
               [] \<Rightarrow> None
             | c' # r' \<Rightarrow>
                 if c' = ch CHR '']'' then Some (JArr [], r')
                 else (case parse_elems n (c' # r') of
                         None \<Rightarrow> None
                       | Some (vs, r'') \<Rightarrow> Some (JArr vs, r'')))
          else if c = ch CHR 0x22 then
            (case parse_chars r of
               None \<Rightarrow> None
             | Some (str, r') \<Rightarrow> Some (JStr str, r'))
          else if c = ch CHR ''t'' then parse_literal (js ''true'') (JBool True) (c # r)
          else if c = ch CHR ''f'' then parse_literal (js ''false'') (JBool False) (c # r)
          else if c = ch CHR ''n'' then parse_literal (js ''null'') JNull (c # r)
          else (case parse_number (c # r) of
                  None \<Rightarrow> None
                | Some (lexeme, r') \<Rightarrow> Some (JNum lexeme, r')))"
| "parse_elems 0 s = None"
| "parse_elems (Suc n) s =
     (case parse_value n s of
        None \<Rightarrow> None
      | Some (v, r) \<Rightarrow>
          (case skip_ws r of
             [] \<Rightarrow> None
           | c # r' \<Rightarrow>
               if c = ch CHR '','' then
                 (case parse_elems n r' of
                    None \<Rightarrow> None
                  | Some (vs, r'') \<Rightarrow> Some (v # vs, r''))
               else if c = ch CHR '']'' then Some ([v], r')
               else None))"
| "parse_members 0 s = None"
| "parse_members (Suc n) s =
     (case skip_ws s of
        [] \<Rightarrow> None
      | q # r \<Rightarrow>
          if q = ch CHR 0x22 then
            (case parse_chars r of
               None \<Rightarrow> None
             | Some (k, r1) \<Rightarrow>
                 (case skip_ws r1 of
                    [] \<Rightarrow> None
                  | c # r2 \<Rightarrow>
                      if c = ch CHR '':'' then
                        (case parse_value n r2 of
                           None \<Rightarrow> None
                         | Some (v, r3) \<Rightarrow>
                             (case skip_ws r3 of
                                [] \<Rightarrow> None
                              | d # r4 \<Rightarrow>
                                  if d = ch CHR '','' then
                                    (case parse_members n r4 of
                                       None \<Rightarrow> None
                                     | Some (kvs, r5) \<Rightarrow> Some ((k, v) # kvs, r5))
                                  else if d = ch CHR ''}'' then Some ([(k, v)], r4)
                                  else None))
                      else None))
          else None)"

definition JSON_parse :: "jsstring \<Rightarrow> json option" where
  "JSON_parse text = (case parse_value (2 * length text + 2) text of
       None \<Rightarrow> None
     | Some (v, r) \<Rightarrow> if skip_ws r = [] then Some v else None)"

text \<open>\<open>typeof parsed.name === "string"\<close>: the parsed value is an object whose member of
  that name, the last one when the name is repeated, is a string.\<close>

definition string_property :: "json \<Rightarrow> jsstring \<Rightarrow> jsstring option" where
  "string_property parsed name = (case parsed of
       JObj kvs \<Rightarrow> (case map_of (rev kvs) name of Some (JStr v) \<Rightarrow> Some v | _ \<Rightarrow> None)
     | _ \<Rightarrow> None)"

text \<open>\<open>String.prototype.trim\<close> strips white space and line terminators: tab, line feed,
  vertical tab, form feed, carriage return, space, U+00A0, U+1680, U+2000 to U+200A, U+2028,
  U+2029, U+202F, U+205F, U+3000 and U+FEFF.\<close>

definition is_space :: "16 word \<Rightarrow> bool" where
  "is_space c = (let n = unat c in
     (9 \<le> n \<and> n \<le> 13) \<or> n = 32 \<or> n = 160 \<or> n = 5760 \<or> (8192 \<le> n \<and> n \<le> 8202)
     \<or> n = 8232 \<or> n = 8233 \<or> n = 8239 \<or> n = 8287 \<or> n = 12288 \<or> n = 65279)"

definition trim :: "jsstring \<Rightarrow> jsstring" where
  "trim s = rev (dropWhile is_space (rev (dropWhile is_space s)))"

fun indexOf :: "jsstring \<Rightarrow> jsstring \<Rightarrow> nat option" where
  "indexOf [] pat = (if pat = [] then Some 0 else None)"
| "indexOf (c # cs) pat =
     (if take (length pat) (c # cs) = pat then Some 0
      else map_option Suc (indexOf cs pat))"

definition encodeSourceRef :: "SourceRef \<Rightarrow> jsstring" where
  "encodeSourceRef s =
     METADATA_PREFIX @ base64url_encode (Buffer_from_utf8 (JSON_stringify s))"

definition decodeSourceRef :: "jsstring option \<Rightarrow> SourceRef option" where
  "decodeSourceRef descr =
     (case descr of
        None \<Rightarrow> None
      | Some d \<Rightarrow>
          if d = [] then None
          else (case indexOf d METADATA_PREFIX of
                  None \<Rightarrow> None
                | Some index \<Rightarrow>
                    (let encoded = trim (drop (index + length METADATA_PREFIX) d) in
                     if encoded = [] then None
                     else (case JSON_parse (toString_utf8 (base64url_decode encoded)) of
                             None \<Rightarrow> None
                           | Some parsed \<Rightarrow>
                               (case (string_property parsed (js ''srcAccount''),
                                      string_property parsed (js ''srcCalendar''),
                                      string_property parsed (js ''eventId''),
                                      string_property parsed (js ''start''),
                                      string_property parsed (js ''end''),
                                      string_property parsed (js ''title'')) of
                                  (Some a, Some c, Some e, Some s, Some n, Some t) \<Rightarrow>
                                    Some \<lparr>srcAccount = a, srcCalendar = c, eventId = e,
                                          start_s = s, end_s = n, title = t\<rparr>
                                | _ \<Rightarrow> None)))))"

definition source_json :: "SourceRef \<Rightarrow> json" where
  "source_json s = JObj [(js ''srcAccount'', JStr (srcAccount s)),
     (js ''srcCalendar'', JStr (srcCalendar s)), (js ''eventId'', JStr (eventId s)),
     (js ''start'', JStr (start_s s)), (js ''end'', JStr (end_s s)),
     (js ''title'', JStr (title s))]"

section \<open>Overlap detector (overlap.ts)\<close>

text \<open>
  \<open>Date.parse\<close> belongs to the JavaScript runtime; it is the parameter \<open>dp\<close>, with
  \<open>None\<close> for \<open>NaN\<close>.  The two \<open>throw\<close> statements are the two errors.
\<close>

datatype error = InvalidDate jsstring | MissingFields jsstring

definition parseIso :: "(jsstring \<Rightarrow> int option) \<Rightarrow> jsstring \<Rightarrow> error + int" where
  "parseIso dp v = (case dp v of None \<Rightarrow> Inl (InvalidDate v) | Some ts \<Rightarrow> Inr ts)"

text \<open>A jsstring operand of \<open>&&\<close> counts as true when it is present and not empty.\<close>

definition truthy :: "jsstring option \<Rightarrow> bool" where
  "truthy v = (case v of None \<Rightarrow> False | Some s \<Rightarrow> s \<noteq> [])"

definition str :: "jsstring option \<Rightarrow> jsstring" where
  "str v = (case v of None \<Rightarrow> [] | Some s \<Rightarrow> s)"

definition parseRange :: "(jsstring \<Rightarrow> int option) \<Rightarrow> jsstring \<Rightarrow> jsstring \<Rightarrow> error + (int \<times> int)" where
  "parseRange dp a b = (case parseIso dp a of
       Inl err \<Rightarrow> Inl err
     | Inr startMs \<Rightarrow> (case parseIso dp b of
                        Inl err \<Rightarrow> Inl err
                      | Inr endMs \<Rightarrow> Inr (startMs, endMs)))"

definition eventRange :: "(jsstring \<Rightarrow> int option) \<Rightarrow> GogEvent \<Rightarrow> error + (int \<times> int)" where
  "eventRange dp ev =
     (if truthy (dateTime (start_e ev)) \<and> truthy (dateTime (end_e ev)) then
        parseRange dp (str (dateTime (start_e ev))) (str (dateTime (end_e ev)))
      else if truthy (date (start_e ev)) \<and> truthy (date (end_e ev)) then
        parseRange dp (str (date (start_e ev)) @ js ''T00:00:00.000Z'')
                      (str (date (end_e ev)) @ js ''T00:00:00.000Z'')
      else Inl (MissingFields (id_e ev)))"

definition isOverlap :: "(jsstring \<Rightarrow> int option) \<Rightarrow> GogEvent \<Rightarrow> GogEvent \<Rightarrow> error + bool" where
  "isOverlap dp a b = (case eventRange dp a of
       Inl err \<Rightarrow> Inl err
     | Inr x \<Rightarrow> (case eventRange dp b of
                  Inl err \<Rightarrow> Inl err
                | Inr y \<Rightarrow> Inr (fst x < snd y \<and> fst y < snd x)))"

section \<open>Reconcile planner (\<open>planReconcile\<close>)\<close>

definition isEquivalent :: "GogEvent \<Rightarrow> GogEvent \<Rightarrow> bool" where
  "isEquivalent existing desired =
     (summary existing = summary desired \<and>
      description existing = description desired \<and>
      visibility existing = visibility desired \<and>
      transparency existing = transparency desired \<and>
      dateTime (start_e existing) = dateTime (start_e desired) \<and>
      date (start_e existing) = date (start_e desired) \<and>
      dateTime (end_e existing) = dateTime (end_e desired) \<and>
      date (end_e existing) = date (end_e desired))"

definition splitManaged :: "GogEvent list \<Rightarrow> GogEvent list \<times> GogEvent list" where
  "splitManaged targetEvents =
     fold (\<lambda>ev (managed, unmanaged).
             if decodeSourceRef (description ev) \<noteq> None then (managed @ [ev], unmanaged)
             else (managed, unmanaged @ [ev]))
       targetEvents ([], [])"

text \<open>
  \<open>localeCompare\<close> is the runtime's collation; it is the parameter \<open>lc\<close>.
  \<open>Array.prototype.sort\<close> is stable; with a comparator it is the stable insertion sort
  \<open>sort_cmp\<close>, which is what every stable sort returns when the comparator is a total preorder.
  Without a comparator it orders strings by their code units, which is \<^const>\<open>sort\<close> in the
  lexicographic order of \<^typ>\<open>jsstring\<close>.
\<close>

fun insort_cmp :: "('a \<Rightarrow> 'a \<Rightarrow> int) \<Rightarrow> 'a \<Rightarrow> 'a list \<Rightarrow> 'a list" where
  "insort_cmp cmp x [] = [x]"
| "insort_cmp cmp x (y # ys) = (if cmp x y \<le> 0 then x # y # ys else y # insort_cmp cmp x ys)"

definition sort_cmp :: "('a \<Rightarrow> 'a \<Rightarrow> int) \<Rightarrow> 'a list \<Rightarrow> 'a list" where
  "sort_cmp cmp xs = foldr (insort_cmp cmp) xs []"

definition by_id :: "(jsstring \<Rightarrow> jsstring \<Rightarrow> int) \<Rightarrow> GogEvent \<Rightarrow> GogEvent \<Rightarrow> int" where
  "by_id lc a b = lc (id_e a) (id_e b)"

text \<open>A \<open>Map\<close> is an association list with distinct keys; \<open>get\<close> is \<^const>\<open>map_of\<close> and
  \<open>set\<close> is \<^const>\<open>AList.update\<close>, which keeps the place of a key already present.\<close>

definition get_list :: "(jsstring \<times> GogEvent list) list \<Rightarrow> jsstring \<Rightarrow> GogEvent list" where
  "get_list m key = (case map_of m key of None \<Rightarrow> [] | Some l \<Rightarrow> l)"

definition add_managed :: "GogEvent \<Rightarrow> (jsstring \<times> GogEvent list) list \<Rightarrow> (jsstring \<times> GogEvent list) list" where
  "add_managed ev m = (case decodeSourceRef (description ev) of
       None \<Rightarrow> m
     | Some src \<Rightarrow> AList.update (holdKey src) (get_list m (holdKey src) @ [ev]) m)"

definition managedByKey :: "(jsstring \<Rightarrow> jsstring \<Rightarrow> int) \<Rightarrow> GogEvent list \<Rightarrow> (jsstring \<times> GogEvent list) list" where
  "managedByKey lc managed = fold add_managed (sort_cmp (by_id lc) managed) []"

definition desiredByKey :: "DesiredHold list \<Rightarrow> (jsstring \<times> DesiredHold) list" where
  "desiredByKey desiredHolds = fold (\<lambda>d m. AList.update (holdKey (source d)) d m) desiredHolds []"

record PlanState =
  actions_st :: "ReconcileAction list"
  changes_st :: int
  capped_st :: bool

text \<open>The budget check that guards every create, update and delete of the source.\<close>

definition schedule :: "int \<Rightarrow> ReconcileAction \<Rightarrow> PlanState \<Rightarrow> PlanState" where
  "schedule maxChangesPerRun a st =
     (if changes_st st \<ge> maxChangesPerRun then st\<lparr>capped_st := True\<rparr>
      else st\<lparr>actions_st := actions_st st @ [a], changes_st := changes_st st + 1\<rparr>)"

text \<open>\<open>unmanaged.find\<close> with a predicate that may throw: candidates are tried in order, and
  the search ends at the first overlap or the first exception.\<close>

fun find_blocker :: "(jsstring \<Rightarrow> int option) \<Rightarrow> GogEvent \<Rightarrow> GogEvent list \<Rightarrow> error + GogEvent option" where
  "find_blocker dp desiredEvent [] = Inr None"
| "find_blocker dp desiredEvent (candidate # rest) =
     (case isOverlap dp candidate desiredEvent of
        Inl err \<Rightarrow> Inl err
      | Inr True \<Rightarrow> Inr (Some candidate)
      | Inr False \<Rightarrow> find_blocker dp desiredEvent rest)"

definition desired_step ::
  "(jsstring \<Rightarrow> int option) \<Rightarrow> OverlapPolicy \<Rightarrow> int \<Rightarrow> (jsstring \<times> GogEvent list) list \<Rightarrow>
   (jsstring \<times> DesiredHold) list \<Rightarrow> GogEvent list \<Rightarrow> jsstring \<Rightarrow> PlanState \<Rightarrow> error + PlanState" where
  "desired_step dp overlapPolicy maxChangesPerRun mbk dbk unmanaged key st =
     (case map_of dbk key of
        None \<Rightarrow> Inr st
      | Some desired \<Rightarrow>
          (case get_list mbk key of
             [] \<Rightarrow>
               (case (if overlapPolicy = Skip then find_blocker dp (event desired) unmanaged
                      else Inr None) of
                  Inl err \<Rightarrow> Inl err
                | Inr (Some blocker) \<Rightarrow>
                    Inr (st\<lparr>actions_st := actions_st st @ [SkipOverlap desired (id_e blocker)]\<rparr>)
                | Inr None \<Rightarrow> Inr (schedule maxChangesPerRun (Create desired) st))
           | primary # duplicates \<Rightarrow>
               Inr (fold (\<lambda>duplicate. schedule maxChangesPerRun (Delete duplicate)) duplicates
                      (if \<not> isEquivalent primary (event desired)
                       then schedule maxChangesPerRun (Update primary desired) st
                       else st))))"

fun desired_loop ::
  "(jsstring \<Rightarrow> int option) \<Rightarrow> OverlapPolicy \<Rightarrow> int \<Rightarrow> (jsstring \<times> GogEvent list) list \<Rightarrow>
   (jsstring \<times> DesiredHold) list \<Rightarrow> GogEvent list \<Rightarrow> jsstring list \<Rightarrow> PlanState \<Rightarrow> error + PlanState" where
  "desired_loop dp overlapPolicy maxChangesPerRun mbk dbk unmanaged [] st = Inr st"
| "desired_loop dp overlapPolicy maxChangesPerRun mbk dbk unmanaged (key # keys) st =
     (case desired_step dp overlapPolicy maxChangesPerRun mbk dbk unmanaged key st of
        Inl err \<Rightarrow> Inl err
      | Inr st' \<Rightarrow> desired_loop dp overlapPolicy maxChangesPerRun mbk dbk unmanaged keys st')"

definition stale_step ::
  "int \<Rightarrow> (jsstring \<times> GogEvent list) list \<Rightarrow> (jsstring \<times> DesiredHold) list \<Rightarrow> jsstring \<Rightarrow>
   PlanState \<Rightarrow> PlanState" where
  "stale_step maxChangesPerRun mbk dbk key st =
     (if map_of dbk key \<noteq> None then st
      else fold (\<lambda>stale. schedule maxChangesPerRun (Delete stale)) (get_list mbk key) st)"

definition planReconcile ::
  "(jsstring \<Rightarrow> jsstring \<Rightarrow> int) \<Rightarrow> (jsstring \<Rightarrow> int option) \<Rightarrow> DesiredHold list \<Rightarrow> GogEvent list \<Rightarrow>
   OverlapPolicy \<Rightarrow> int \<Rightarrow> error + ReconcilePlan" where
  "planReconcile lc dp desiredHolds targetEvents overlapPolicy maxChangesPerRun =
     (let (managed, unmanaged) = splitManaged targetEvents;
          mbk = managedByKey lc managed;
          dbk = desiredByKey desiredHolds
      in case desired_loop dp overlapPolicy maxChangesPerRun mbk dbk unmanaged
                (sort (map fst dbk))
                \<lparr>actions_st = [], changes_st = 0, capped_st = False\<rparr> of
           Inl err \<Rightarrow> Inl err
         | Inr st \<Rightarrow>
             (let st' = fold (stale_step maxChangesPerRun mbk dbk) (sort (map fst mbk)) st
              in Inr \<lparr>actions = actions_st st', desiredCount = length desiredHolds,
                       existingManagedCount = length managed, capped = capped_st st'\<rparr>))"

section \<open>The plan without the budget\<close>

fun is_mutation :: "ReconcileAction \<Rightarrow> bool" where
  "is_mutation (SkipOverlap d b) = False"
| "is_mutation a = True"

definition mutations :: "ReconcileAction list \<Rightarrow> ReconcileAction list" where
  "mutations as = filter is_mutation as"

definition skips :: "ReconcileAction list \<Rightarrow> ReconcileAction list" where
  "skips as = filter (\<lambda>a. \<not> is_mutation a) as"

text \<open>\<open>admit b as\<close> lets every \<open>skip_overlap\<close> through and the first \<open>b\<close> mutations.\<close>

fun admit :: "nat \<Rightarrow> ReconcileAction list \<Rightarrow> ReconcileAction list" where
  "admit b [] = []"
| "admit b (a # as) =
     (if is_mutation a then (case b of 0 \<Rightarrow> admit 0 as | Suc b' \<Rightarrow> a # admit b' as)
      else a # admit b as)"

definition desired_candidates ::
  "(jsstring \<Rightarrow> int option) \<Rightarrow> OverlapPolicy \<Rightarrow> (jsstring \<times> GogEvent list) list \<Rightarrow>
   (jsstring \<times> DesiredHold) list \<Rightarrow> GogEvent list \<Rightarrow> jsstring \<Rightarrow> error + ReconcileAction list" where
  "desired_candidates dp overlapPolicy mbk dbk unmanaged key =
     (case map_of dbk key of
        None \<Rightarrow> Inr []
      | Some desired \<Rightarrow>
          (case get_list mbk key of
             [] \<Rightarrow>
               (case (if overlapPolicy = Skip then find_blocker dp (event desired) unmanaged
                      else Inr None) of
                  Inl err \<Rightarrow> Inl err
                | Inr (Some blocker) \<Rightarrow> Inr [SkipOverlap desired (id_e blocker)]
                | Inr None \<Rightarrow> Inr [Create desired])
           | primary # duplicates \<Rightarrow>
               Inr ((if \<not> isEquivalent primary (event desired) then [Update primary desired]
                     else []) @ map Delete duplicates)))"

fun collect :: "('k \<Rightarrow> error + 'a list) \<Rightarrow> 'k list \<Rightarrow> error + 'a list" where
  "collect f [] = Inr []"
| "collect f (k # ks) =
     (case f k of
        Inl err \<Rightarrow> Inl err
      | Inr xs \<Rightarrow> (case collect f ks of Inl err \<Rightarrow> Inl err | Inr ys \<Rightarrow> Inr (xs @ ys)))"

definition stale_key ::
  "(jsstring \<times> GogEvent list) list \<Rightarrow> (jsstring \<times> DesiredHold) list \<Rightarrow> jsstring \<Rightarrow> ReconcileAction list" where
  "stale_key mbk dbk key =
     (if map_of dbk key \<noteq> None then [] else map Delete (get_list mbk key))"

definition stale_candidates ::
  "(jsstring \<times> GogEvent list) list \<Rightarrow> (jsstring \<times> DesiredHold) list \<Rightarrow> ReconcileAction list" where
  "stale_candidates mbk dbk = concat (map (stale_key mbk dbk) (sort (map fst mbk)))"

definition candidates ::
  "(jsstring \<Rightarrow> jsstring \<Rightarrow> int) \<Rightarrow> (jsstring \<Rightarrow> int option) \<Rightarrow> DesiredHold list \<Rightarrow> GogEvent list \<Rightarrow>
   OverlapPolicy \<Rightarrow> error + ReconcileAction list" where
  "candidates lc dp desiredHolds targetEvents overlapPolicy =
     (let (managed, unmanaged) = splitManaged targetEvents;
          mbk = managedByKey lc managed;
          dbk = desiredByKey desiredHolds
      in case collect (desired_candidates dp overlapPolicy mbk dbk unmanaged) (sort (map fst dbk)) of
           Inl err \<Rightarrow> Inl err
         | Inr cs \<Rightarrow> Inr (cs @ stale_candidates mbk dbk))"

definition is_managed :: "GogEvent \<Rightarrow> bool" where
  "is_managed ev = (decodeSourceRef (description ev) \<noteq> None)"

definition event_key :: "GogEvent \<Rightarrow> jsstring option" where
  "event_key ev = map_option holdKey (decodeSourceRef (description ev))"

text \<open>The state after the budget check has seen the candidates \<open>cs\<close>.\<close>

definition budget_state :: "int \<Rightarrow> ReconcileAction list \<Rightarrow> PlanState \<Rightarrow> PlanState" where
  "budget_state N cs st =
     \<lparr>actions_st = actions_st st @ admit (nat (N - changes_st st)) cs,
      changes_st = changes_st st + int (min (nat (N - changes_st st)) (length (mutations cs))),
      capped_st = (capped_st st \<or> nat (N - changes_st st) < length (mutations cs))\<rparr>"

section \<open>Well-formed strings\<close>

text \<open>A string is well formed when every surrogate in it is part of a pair, and a code point
  is a scalar value when it is below 0x110000 and not a surrogate.\<close>

fun well_formed :: "nat list \<Rightarrow> bool" where
  "well_formed (u # v # r) =
     (if lead_surrogate u \<and> trail_surrogate v then well_formed r
      else \<not> lead_surrogate u \<and> \<not> trail_surrogate u \<and> well_formed (v # r))"
| "well_formed [u] = (\<not> lead_surrogate u \<and> \<not> trail_surrogate u)"
| "well_formed [] = True"

definition scalar_value :: "nat \<Rightarrow> bool" where
  "scalar_value cp = (cp < 1114112 \<and> \<not> (55296 \<le> cp \<and> cp \<le> 57343))"

section \<open>Example inputs\<close>

text \<open>A comparator and a date parser to run the planner with, and events in the shape of
  the repository's tests: a timed event with the hold defaults, and the desired hold of a
  source event, whose description carries the encoded tag.\<close>

definition ex_lc :: "jsstring \<Rightarrow> jsstring \<Rightarrow> int" where
  "ex_lc a b = (if a < b then - 1 else if a = b then 0 else 1)"

definition ex_dp :: "jsstring \<Rightarrow> int option" where
  "ex_dp v = (if v = js ''2026-03-01T12:00:00.000Z'' then Some 1772366400000
     else if v = js ''2026-03-01T12:30:00.000Z'' then Some 1772368200000
     else if v = js ''2026-03-02T12:00:00.000Z'' then Some 1772452800000
     else if v = js ''2026-03-02T12:30:00.000Z'' then Some 1772454600000
     else None)"

definition timedEvent :: "jsstring \<Rightarrow> jsstring \<Rightarrow> jsstring \<Rightarrow> jsstring option \<Rightarrow> GogEvent" where
  "timedEvent i s e d =
     \<lparr>id_e = i, etag = None, updated = None, summary = Some (js ''Busy''), description = d,
      status = None, visibility = Some (js ''private''), transparency = Some (js ''busy''),
      start_e = \<lparr>dateTime = Some s, date = None, timeZone = None\<rparr>,
      end_e = \<lparr>dateTime = Some e, date = None, timeZone = None\<rparr>,
      reminders = None\<rparr>"

definition desiredHold :: "SourceRef \<Rightarrow> DesiredHold" where
  "desiredHold src =
     \<lparr>source = src,
      event = (timedEvent (js ''desired-'' @ eventId src) (start_s src) (end_s src)
                 (Some (encodeSourceRef src)))
        \<lparr>reminders := Some \<lparr>useDefault = Some False, overrides = Some []\<rparr>\<rparr>\<rparr>"

definition ex_source :: "jsstring \<Rightarrow> jsstring \<Rightarrow> SourceRef" where
  "ex_source i day =
     \<lparr>srcAccount = js ''source@example.com'', srcCalendar = js ''work'', eventId = i,
      start_s = js ''2026-03-0'' @ day @ js ''T12:00:00.000Z'',
      end_s = js ''2026-03-0'' @ day @ js ''T12:30:00.000Z'', title = js ''1:1''\<rparr>"

definition ex_drifted :: "jsstring \<Rightarrow> SourceRef \<Rightarrow> GogEvent" where
  "ex_drifted i src =
     (timedEvent i (start_s src) (end_s src) (Some (encodeSourceRef src)))
       \<lparr>summary := Some (js ''Not Busy'')\<rparr>"

definition ex_rangeless :: GogEvent where
  "ex_rangeless =
     \<lparr>id_e = js ''broken'', etag = None, updated = None, summary = Some (js ''Lunch''),
      description = None, status = None, visibility = None, transparency = None,
      start_e = \<lparr>dateTime = Some (js ''2026-03-01T12:00:00.000Z''), date = None, timeZone = None\<rparr>,
      end_e = \<lparr>dateTime = None, date = None, timeZone = None\<rparr>,
      reminders = None\<rparr>"

definition ex_untagged :: DesiredHold where
  "ex_untagged =
     \<lparr>source = ex_source (js ''a'') (js ''1''),
      event = timedEvent (js ''desired-a'') (js ''2026-03-01T12:00:00.000Z'') (js ''2026-03-01T12:30:00.000Z'') None\<rparr>"

definition ex_unmanaged :: "jsstring \<Rightarrow> GogEvent" where
  "ex_unmanaged i =
     (timedEvent i (js ''2026-03-01T12:00:00.000Z'') (js ''2026-03-01T12:30:00.000Z'') None)
       \<lparr>summary := Some (js ''Lunch'')\<rparr>"

definition ex_renamed :: "DesiredHold \<Rightarrow> DesiredHold" where
  "ex_renamed d = d\<lparr>event := (event d)\<lparr>summary := Some (js ''Hold'')\<rparr>\<rparr>"

text \<open>A comparator that, as the collation of \<open>localeCompare\<close> does, orders letters
  alphabetically before it looks at their case, the lower case first: \<open>a\<close> sorts before \<open>B\<close>.
  And a managed event that already agrees with the desired event of its source.\<close>

definition fold_case :: "16 word \<Rightarrow> 16 word" where
  "fold_case c = (if 65 \<le> unat c \<and> unat c \<le> 90 then c + 32 else c)"

definition ex_collate :: "jsstring \<Rightarrow> jsstring \<Rightarrow> int" where
  "ex_collate a b =
     (if map fold_case a < map fold_case b then - 1
      else if map fold_case b < map fold_case a then 1
      else if a = b then 0 else if b < a then - 1 else 1)"

definition ex_synced :: "jsstring \<Rightarrow> SourceRef \<Rightarrow> GogEvent" where
  "ex_synced i src = timedEvent i (start_s src) (end_s src) (Some (encodeSourceRef src))"

section \<open>Notions the claims speak of\<close>

text \<open>The bucket of a key: the managed events with that key, in the order of the sort.  The
  target of an action: the existing event an update or a delete is about.\<close>

definition bucket :: "(jsstring \<Rightarrow> jsstring \<Rightarrow> int) \<Rightarrow> GogEvent list \<Rightarrow> jsstring \<Rightarrow> GogEvent list" where
  "bucket lc targetEvents key =
     filter (\<lambda>ev. event_key ev = Some key) (sort_cmp (by_id lc) (filter is_managed targetEvents))"

fun target_of :: "ReconcileAction \<Rightarrow> GogEvent option" where
  "target_of (Update existing d) = Some existing"
| "target_of (Delete existing) = Some existing"
| "target_of _ = None"

definition targets :: "ReconcileAction list \<Rightarrow> GogEvent list" where
  "targets as = List.map_filter target_of as"

text \<open>An event has a complete range when it carries a complete timed pair or a complete
  all-day pair; the range is parseable when the pair that \<open>eventRange\<close> reads parses.\<close>

definition complete_range :: "GogEvent \<Rightarrow> bool" where
  "complete_range ev =
     ((truthy (dateTime (start_e ev)) \<and> truthy (dateTime (end_e ev)))
      \<or> (truthy (date (start_e ev)) \<and> truthy (date (end_e ev))))"


text \<open>What is asked of \<open>localeCompare\<close> where a claim depends on the order of the ids: it
  is a consistent comparator (the condition under which \<open>Array.prototype.sort\<close> sorts), and it
  tells the ids of the target events apart (no two distinct ids compare equal).\<close>

definition consistent_cmp :: "('a \<Rightarrow> 'a \<Rightarrow> int) \<Rightarrow> bool" where
  "consistent_cmp c =
     ((\<forall>a b. (c a b < 0) = (0 < c b a)) \<and> (\<forall>a b d. c a b \<le> 0 \<and> c b d \<le> 0 \<longrightarrow> c a d \<le> 0))"

definition ids_told_apart :: "(jsstring \<Rightarrow> jsstring \<Rightarrow> int) \<Rightarrow> GogEvent list \<Rightarrow> bool" where
  "ids_told_apart lc targetEvents =
     (\<forall>a \<in> set targetEvents. \<forall>b \<in> set targetEvents.
        lc (id_e a) (id_e b) = 0 \<longrightarrow> id_e a = id_e b)"

text \<open>The actions about the events of one key; the actions with the blocker's id left out.\<close>

definition touches_key :: "jsstring \<Rightarrow> ReconcileAction \<Rightarrow> bool" where
  "touches_key k a = (case target_of a of Some ev \<Rightarrow> event_key ev = Some k | None \<Rightarrow> False)"

fun erase_blocker :: "ReconcileAction \<Rightarrow> ReconcileAction" where
  "erase_blocker (SkipOverlap d b) = SkipOverlap d []"
| "erase_blocker a = a"

text \<open>
  Modelled from the spec: the effects of a plan on the list of target events, which the
  repository leaves to the calendar backend.  Each create adds its desired event, each update
  replaces its existing event by the desired event, each delete removes its existing event;
  a \<open>skip_overlap\<close> changes nothing.
\<close>

fun replace_first :: "'a \<Rightarrow> 'a \<Rightarrow> 'a list \<Rightarrow> 'a list" where
  "replace_first x y [] = []"
| "replace_first x y (z # zs) = (if z = x then y # zs else z # replace_first x y zs)"

fun applyAction :: "ReconcileAction \<Rightarrow> GogEvent list \<Rightarrow> GogEvent list" where
  "applyAction (Create d) T = T @ [event d]"
| "applyAction (Update existing d) T = replace_first existing (event d) T"
| "applyAction (Delete existing) T = remove1 existing T"
| "applyAction (SkipOverlap d b) T = T"

definition applyPlan :: "ReconcileAction list \<Rightarrow> GogEvent list \<Rightarrow> GogEvent list" where
  "applyPlan as T = fold applyAction as T"

text \<open>A desired hold is tagged when the description of its event decodes to a
  \<open>SourceRef\<close> with the key of the hold; the key an action is about; an update is well keyed
  when it keeps the key of the event.\<close>

definition tagged :: "DesiredHold \<Rightarrow> bool" where
  "tagged d = (event_key (event d) = Some (holdKey (source d)))"

fun action_key :: "ReconcileAction \<Rightarrow> jsstring option" where
  "action_key (Create d) = event_key (event d)"
| "action_key (Update existing d) = event_key existing"
| "action_key (Delete existing) = event_key existing"
| "action_key (SkipOverlap d b) = None"

fun well_keyed :: "ReconcileAction \<Rightarrow> bool" where
  "well_keyed (Update existing d) = (event_key (event d) = event_key existing)"
| "well_keyed a = True"

section \<open>Code units, bytes and literals\<close>

lemma unat_ch: "unat (ch c) = of_char c"
proof -
  have "(of_char c :: nat) < 256" by (rule nat_of_char_less_256)
  then have "(of_char c :: nat) < 65536" by linarith
  then show ?thesis by (simp add: ch_def unat_of_nat)
qed

lemma unat_unit: "unat (u :: 16 word) < 65536"
  using unsigned_less[of u, where 'a = nat] by simp

lemma unat_byte: "unat (b :: 8 word) < 256"
  using unsigned_less[of b, where 'a = nat] by simp

lemma unat_of_nat_unit: "n < 65536 \<Longrightarrow> unat (of_nat n :: 16 word) = n"
  by (simp add: unat_of_nat)

lemma unat_of_nat_byte: "n < 256 \<Longrightarrow> unat (of_nat n :: 8 word) = n"
  by (simp add: unat_of_nat)

lemma map_unat_of_nat_unit:
  "\<forall>n \<in> set ns. n < 65536 \<Longrightarrow> map unat (map of_nat ns :: 16 word list) = ns"
  by (induction ns) (simp_all add: unat_of_nat_unit)

lemma map_unat_of_nat_byte:
  "\<forall>n \<in> set ns. n < 256 \<Longrightarrow> map unat (map of_nat ns :: 8 word list) = ns"
  by (induction ns) (simp_all add: unat_of_nat_byte)

lemma map_of_nat_unat: "map of_nat (map unat ws) = ws"
  by (induction ws) simp_all

lemma js_Nil: "js [] = []" and js_Cons: "js (c # s) = ch c # js s"
  by (simp_all add: js_def)

lemma js_append: "js (a @ b) = js a @ js b"
  by (simp add: js_def)

lemma ch_eq_iff: "ch c = ch d \<longleftrightarrow> c = d"
proof
  assume "ch c = ch d"
  then have "unat (ch c) = unat (ch d)" by simp
  then show "c = d" by (simp add: unat_ch)
qed simp

lemma js_eq_iff [simp]: "js a = js b \<longleftrightarrow> a = b"
  unfolding js_def by (rule inj_map_eq_map) (simp add: inj_on_def ch_eq_iff)

lemma ch_less_iff: "ch c < ch d \<longleftrightarrow> c < d"
  by (simp add: word_less_nat_alt unat_ch less_char_def)

lemma js_less_iff: "js a < js b \<longleftrightarrow> a < b"
proof (induction a arbitrary: b)
  case Nil
  show ?case by (cases b) (simp_all add: js_def)
next
  case (Cons c a)
  show ?case
  proof (cases b)
    case Nil
    then show ?thesis by (simp add: js_def)
  next
    case (Cons d b')
    with Cons.IH[of b'] show ?thesis
      by (simp add: js_Cons ch_less_iff ch_eq_iff)
  qed
qed

lemma js_le_iff: "js a \<le> js b \<longleftrightarrow> a \<le> b"
  by (simp add: le_less js_less_iff js_eq_iff)

lemmas js_eval = js_Cons js_Nil ch_eq_iff ch_less_iff

section \<open>The matching key\<close>

lemma colon_safe_Cons:
  "colon_safe (c # f) \<Longrightarrow> colon_safe f"
  by (cases f) (auto simp: colon_safe_def)

lemma colon_safe_split_unique:
  "colon_safe f \<Longrightarrow> colon_safe g \<Longrightarrow> f @ js ''::'' @ r = g @ js ''::'' @ r' \<Longrightarrow> f = g \<and> r = r'"
proof (induction f arbitrary: g)
  case Nil
  show ?case
  proof (cases g)
    case Nil
    with Nil.prems show ?thesis by simp
  next
    case (Cons c g')
    from Nil.prems(3) Cons have "c = ch CHR '':'' \<and> ch CHR '':'' # r = g' @ js ''::'' @ r'" by (auto simp: js_Cons js_Nil)
    then have c: "c = ch CHR '':''" and rest: "ch CHR '':'' # r = g' @ js ''::'' @ r'" by blast+
    show ?thesis
    proof (cases g')
      case Nil
      with Cons c Nil.prems(2) show ?thesis by (simp add: colon_safe_def)
    next
      case (Cons d g'')
      with rest have "d = ch CHR '':''" by (simp add: js_Cons js_Nil)
      with Cons \<open>g = c # g'\<close> c Nil.prems(2) show ?thesis by (simp add: colon_safe_def)
    qed
  qed
next
  case (Cons a f)
  show ?case
  proof (cases g)
    case Nil
    from Cons.prems(3) Nil have "a = ch CHR '':'' \<and> f @ js ''::'' @ r = ch CHR '':'' # r'" by (auto simp: js_Cons js_Nil)
    then have a: "a = ch CHR '':''" and rest: "f @ js ''::'' @ r = ch CHR '':'' # r'" by blast+
    show ?thesis
    proof (cases f)
      case Nil
      with a Cons.prems(1) show ?thesis by (simp add: colon_safe_def)
    next
      case (Cons d f')
      with rest have "d = ch CHR '':''" by (simp add: js_Cons js_Nil)
      with Cons a Cons.prems(1) show ?thesis by (simp add: colon_safe_def)
    qed
  next
    case (Cons b g')
    with Cons.prems have "a = b" and "f @ js ''::'' @ r = g' @ js ''::'' @ r'" by simp_all
    moreover have "colon_safe f" using Cons.prems(1) by (rule colon_safe_Cons)
    moreover have "colon_safe g'" using Cons.prems(2) \<open>g = b # g'\<close> by (auto dest: colon_safe_Cons)
    ultimately show ?thesis using Cons.IH[of g'] \<open>g = b # g'\<close> by simp
  qed
qed

lemma holdKey_inj:
  assumes "key_fields_safe s1" "key_fields_safe s2" "holdKey s1 = holdKey s2"
  shows "same_occurrence s1 s2"
proof -
  from assms have 1: "srcAccount s1 = srcAccount s2 \<and>
      srcCalendar s1 @ js ''::'' @ eventId s1 @ js ''::'' @ start_s s1 @ js ''::'' @ end_s s1
    = srcCalendar s2 @ js ''::'' @ eventId s2 @ js ''::'' @ start_s s2 @ js ''::'' @ end_s s2"
    unfolding holdKey_def key_fields_safe_def
    by (intro colon_safe_split_unique) auto
  with assms have 2: "srcCalendar s1 = srcCalendar s2 \<and>
      eventId s1 @ js ''::'' @ start_s s1 @ js ''::'' @ end_s s1
    = eventId s2 @ js ''::'' @ start_s s2 @ js ''::'' @ end_s s2"
    unfolding key_fields_safe_def
    by (intro colon_safe_split_unique) auto
  with assms have 3: "eventId s1 = eventId s2 \<and>
      start_s s1 @ js ''::'' @ end_s s1 = start_s s2 @ js ''::'' @ end_s s2"
    unfolding key_fields_safe_def
    by (intro colon_safe_split_unique) auto
  with assms have 4: "start_s s1 = start_s s2 \<and> end_s s1 = end_s s2"
    unfolding key_fields_safe_def
    by (intro colon_safe_split_unique) auto
  from 1 2 3 4 show ?thesis by (simp add: same_occurrence_def)
qed

lemma holdKey_cong:
  "same_occurrence s1 s2 \<Longrightarrow> holdKey s1 = holdKey s2"
  by (simp add: same_occurrence_def holdKey_def)


section \<open>UTF-8 and UTF-16\<close>

lemma utf8_encode_bytes:
  assumes "cp < 1114112"
  shows "\<forall>b \<in> set (utf8_encode cp). b < 256"
proof -
  have m: "cp mod 64 < 64" "(cp div 64) mod 64 < 64" "(cp div 4096) mod 64 < 64" by simp_all
  have a: "cp < 2048 \<Longrightarrow> cp div 64 < 32" by simp
  have b: "cp < 65536 \<Longrightarrow> cp div 4096 < 16" by simp
  have c: "cp div 262144 < 5" using assms by simp
  show ?thesis
    unfolding utf8_encode_def using m a b c by (auto simp del: div_mult_self1 div_mult_self2)
qed

lemma utf8_first_ascii: "cp < 128 \<Longrightarrow> utf8_first cp rest = (cp, 0)"
  by (simp add: utf8_first_def)

lemma utf8_first_two:
  assumes "128 \<le> cp" "cp < 2048"
  shows "utf8_first (192 + cp div 64) ((128 + cp mod 64) # rest) = (cp, 1)"
proof -
  have d: "2 \<le> cp div 64" "cp div 64 < 32" using assms by simp_all
  have m: "cp mod 64 < 64" by simp
  have e: "cp div 64 * 64 + cp mod 64 = cp" by simp
  show ?thesis
    unfolding utf8_first_def continuation_def using d m e
    by (simp del: div_mult_mod_eq mod_div_mult_eq)
qed

lemma utf8_first_three:
  assumes "2048 \<le> cp" "cp < 65536" "\<not> (55296 \<le> cp \<and> cp \<le> 57343)"
  shows "utf8_first (224 + cp div 4096)
           ((128 + (cp div 64) mod 64) # (128 + cp mod 64) # rest) = (cp, 2)"
proof -
  define a where "a = cp div 4096"
  define b where "b = (cp div 64) mod 64"
  define c where "c = cp mod 64"
  have "cp div 64 div 64 = cp div 4096" by (simp add: div_mult2_eq[symmetric])
  then have "cp div 64 = a * 64 + b"
    unfolding a_def b_def using div_mult_mod_eq[of "cp div 64" 64] by simp
  then have cp: "cp = a * 4096 + b * 64 + c"
    unfolding c_def using div_mult_mod_eq[of cp 64] by simp
  have r: "a < 16" "b < 64" "c < 64"
    using assms(2) unfolding a_def b_def c_def by simp_all
  have lo: "a = 0 \<Longrightarrow> 32 \<le> b" using assms(1) cp r by arith
  have hi: "a = 13 \<Longrightarrow> b < 32" using assms(3) cp r by arith
  have "utf8_first (224 + a) ((128 + b) # (128 + c) # rest) = (a * 4096 + b * 64 + c, 2)"
    unfolding utf8_first_def continuation_def using r lo hi by auto
  then have "utf8_first (224 + a) ((128 + b) # (128 + c) # rest) = (cp, 2)"
    by (simp only: cp[symmetric])
  then show ?thesis unfolding a_def b_def c_def .
qed

lemma utf8_first_four:
  assumes "65536 \<le> cp" "cp < 1114112"
  shows "utf8_first (240 + cp div 262144)
           ((128 + (cp div 4096) mod 64) # (128 + (cp div 64) mod 64) # (128 + cp mod 64) # rest)
         = (cp, 3)"
proof -
  define a where "a = cp div 262144"
  define b where "b = (cp div 4096) mod 64"
  define c where "c = (cp div 64) mod 64"
  define d where "d = cp mod 64"
  have "cp div 4096 div 64 = cp div 262144" by (simp add: div_mult2_eq[symmetric])
  then have 1: "cp div 4096 = a * 64 + b"
    unfolding a_def b_def using div_mult_mod_eq[of "cp div 4096" 64] by simp
  have "cp div 64 div 64 = cp div 4096" by (simp add: div_mult2_eq[symmetric])
  then have "cp div 64 = cp div 4096 * 64 + c"
    unfolding c_def using div_mult_mod_eq[of "cp div 64" 64] by simp
  then have cp: "cp = a * 262144 + b * 4096 + c * 64 + d"
    unfolding d_def 1 using div_mult_mod_eq[of cp 64] by simp
  have r: "a < 5" "b < 64" "c < 64" "d < 64"
    using assms(2) unfolding a_def b_def c_def d_def by simp_all
  have lo: "a = 0 \<Longrightarrow> 16 \<le> b" using assms(1) cp r by arith
  have hi: "a = 4 \<Longrightarrow> b < 16" using assms(2) cp r by arith
  have "utf8_first (240 + a) ((128 + b) # (128 + c) # (128 + d) # rest)
        = (a * 262144 + b * 4096 + c * 64 + d, 3)"
    unfolding utf8_first_def continuation_def using r lo hi by auto
  then have "utf8_first (240 + a) ((128 + b) # (128 + c) # (128 + d) # rest) = (cp, 3)"
    by (simp only: cp[symmetric])
  then show ?thesis unfolding a_def b_def c_def d_def .
qed

lemma utf8_decode_encode_one:
  assumes "scalar_value cp"
  shows "utf8_decode (utf8_encode cp @ rest) = cp # utf8_decode rest"
proof -
  from assms have b: "cp < 1114112" and s: "\<not> (55296 \<le> cp \<and> cp \<le> 57343)"
    by (simp_all add: scalar_value_def)
  consider "cp < 128" | "128 \<le> cp" "cp < 2048" | "2048 \<le> cp" "cp < 65536" | "65536 \<le> cp"
    by linarith
  then show ?thesis
  proof cases
    case 1
    then show ?thesis by (simp add: utf8_encode_def utf8_first_ascii)
  next
    case 2
    then show ?thesis by (simp add: utf8_encode_def utf8_first_two)
  next
    case 3
    then show ?thesis using s by (simp add: utf8_encode_def utf8_first_three)
  next
    case 4
    then show ?thesis using b by (simp add: utf8_encode_def utf8_first_four)
  qed
qed

lemma utf8_decode_encode:
  "\<forall>cp \<in> set cps. scalar_value cp \<Longrightarrow>
     utf8_decode (concat (map utf8_encode cps)) = cps"
proof (induction cps)
  case Nil
  show ?case by simp
next
  case (Cons cp cps)
  then show ?case using utf8_decode_encode_one[of cp "concat (map utf8_encode cps)"] by simp
qed

lemma pair_scalar:
  assumes "lead_surrogate u" "trail_surrogate v"
  shows "scalar_value (65536 + (u - 55296) * 1024 + (v - 56320))"
    and "65536 \<le> 65536 + (u - 55296) * 1024 + (v - 56320)"
proof -
  define a where "a = u - 55296"
  define b where "b = v - 56320"
  have "a < 1024" "b < 1024"
    using assms unfolding a_def b_def lead_surrogate_def trail_surrogate_def by auto
  then have "a * 1024 + b < 1048576" by linarith
  then show "scalar_value (65536 + (u - 55296) * 1024 + (v - 56320))"
    unfolding scalar_value_def a_def[symmetric] b_def[symmetric] by simp
  show "65536 \<le> 65536 + (u - 55296) * 1024 + (v - 56320)" by simp
qed

lemma code_points_scalar:
  "\<forall>u \<in> set us. u < 65536 \<Longrightarrow> \<forall>cp \<in> set (code_points us). scalar_value cp"
proof (induction us rule: code_points.induct)
  case (1 u v r)
  then show ?case
    by (auto simp: pair_scalar(1))
       (auto simp: scalar_value_def lead_surrogate_def trail_surrogate_def)
next
  case (2 u)
  then show ?case by (auto simp: scalar_value_def lead_surrogate_def trail_surrogate_def)
qed simp

lemma utf16_encode_pair:
  assumes "lead_surrogate u" "trail_surrogate v"
  shows "utf16_encode (65536 + (u - 55296) * 1024 + (v - 56320)) = [u, v]"
proof -
  define a where "a = u - 55296"
  define b where "b = v - 56320"
  have r: "b < 1024" "u = 55296 + a" "v = 56320 + b"
    using assms unfolding a_def b_def lead_surrogate_def trail_surrogate_def by auto
  have "(a * 1024 + b) div 1024 = a" "(a * 1024 + b) mod 1024 = b" using r(1) by simp_all
  then show ?thesis
    unfolding utf16_encode_def a_def[symmetric] b_def[symmetric] r(2,3) by simp
qed

lemma utf16_code_points:
  "well_formed us \<Longrightarrow> \<forall>u \<in> set us. u < 65536 \<Longrightarrow>
     concat (map utf16_encode (code_points us)) = us"
proof (induction us rule: code_points.induct)
  case (1 u v r)
  show ?case
  proof (cases "lead_surrogate u \<and> trail_surrogate v")
    case True
    with 1 show ?thesis by (simp add: utf16_encode_pair)
  next
    case False
    with 1 show ?thesis by (simp add: utf16_encode_def)
  qed
next
  case (2 u)
  then show ?case by (simp add: utf16_encode_def)
qed simp

lemma toString_utf8_Buffer_from_utf8:
  assumes "well_formed (map unat s)"
  shows "toString_utf8 (Buffer_from_utf8 s) = s"
proof -
  let ?cps = "code_points (map unat s)"
  have u: "\<forall>u \<in> set (map unat s). u < 65536" by (simp add: unat_unit)
  have sc: "\<forall>cp \<in> set ?cps. scalar_value cp" using u by (rule code_points_scalar)
  have "\<forall>b \<in> set (concat (map utf8_encode ?cps)). b < 256"
    using sc utf8_encode_bytes by (auto simp: scalar_value_def)
  then have "map unat (Buffer_from_utf8 s) = concat (map utf8_encode ?cps)"
    unfolding Buffer_from_utf8_def by (rule map_unat_of_nat_byte)
  then have "toString_utf8 (Buffer_from_utf8 s) = map of_nat (concat (map utf16_encode ?cps))"
    unfolding toString_utf8_def using utf8_decode_encode[OF sc] by simp
  also have "\<dots> = map of_nat (map unat s)"
    using utf16_code_points[OF assms u] by simp
  finally show ?thesis by (simp only: map_of_nat_unat)
qed

lemma well_formed_Cons:
  "\<not> lead_surrogate u \<Longrightarrow> \<not> trail_surrogate u \<Longrightarrow> well_formed (u # us) = well_formed us"
  by (cases us) simp_all

lemma well_formed_append:
  "well_formed a \<Longrightarrow> well_formed b \<Longrightarrow> well_formed (a @ b)"
proof (induction a rule: well_formed.induct)
  case (1 u v r)
  then show ?case by (auto split: if_splits)
next
  case (2 u)
  then show ?case by (simp add: well_formed_Cons)
qed simp

section \<open>base64url\<close>

lemma unbase64_enc6: "n < 64 \<Longrightarrow> unbase64 (enc6 n) = Some n"
  by (auto simp: unbase64_def enc6_def)

lemma enc6_less: "enc6 n < 128"
  by (auto simp: enc6_def)

lemma unat_enc6: "unat (of_nat (enc6 n) :: 16 word) = enc6 n"
  using enc6_less[of n] by (simp add: unat_of_nat_unit)

lemma enc6_not_space: "\<not> is_space (of_nat (enc6 n))"
  unfolding is_space_def Let_def unat_enc6 by (auto simp: enc6_def)

lemma sextet_bounds:
  fixes x y z :: nat
  shows "x < 256 \<Longrightarrow> x div 4 < 64"
    and "y < 256 \<Longrightarrow> (x mod 4) * 16 + y div 16 < 64"
    and "z < 256 \<Longrightarrow> (y mod 16) * 4 + z div 64 < 64"
    and "(y mod 16) * 4 < 64"
    and "(x mod 4) * 16 < 64"
    and "z mod 64 < 64"
proof -
  have m4: "x mod 4 < 4" and m16: "y mod 16 < 16" by simp_all
  show "x < 256 \<Longrightarrow> x div 4 < 64" by simp
  show "y < 256 \<Longrightarrow> (x mod 4) * 16 + y div 16 < 64"
  proof -
    assume "y < 256"
    then have "y div 16 < 16" by simp
    with m4 show ?thesis by linarith
  qed
  show "z < 256 \<Longrightarrow> (y mod 16) * 4 + z div 64 < 64"
  proof -
    assume "z < 256"
    then have "z div 64 < 4" by simp
    with m16 show ?thesis by linarith
  qed
  show "(y mod 16) * 4 < 64" using m16 by linarith
  show "(x mod 4) * 16 < 64" using m4 by linarith
  show "z mod 64 < 64" by simp
qed

lemma sextet_join:
  fixes x y z :: nat
  shows "y < 256 \<Longrightarrow> x div 4 * 4 + (x mod 4 * 16 + y div 16) div 16 = x"
    and "y < 256 \<Longrightarrow> z < 256 \<Longrightarrow>
           (x mod 4 * 16 + y div 16) mod 16 * 16 + (y mod 16 * 4 + z div 64) div 4 = y"
    and "z < 256 \<Longrightarrow> (y mod 16 * 4 + z div 64) mod 4 * 64 + z mod 64 = z"
    and "y < 256 \<Longrightarrow> (x mod 4 * 16 + y div 16) mod 16 * 16 + (y mod 16 * 4) div 4 = y"
    and "x div 4 * 4 + (x mod 4 * 16) div 16 = x"
  by (simp_all add: less_mult_imp_div_less)

lemma to_sextets_bound:
  "\<forall>x \<in> set bs. x < 256 \<Longrightarrow> \<forall>v \<in> set (to_sextets bs). v < 64"
  by (induction bs rule: to_sextets.induct) (simp_all add: sextet_bounds)

lemma legal_sextets_enc6:
  "\<forall>v \<in> set vs. v < 64 \<Longrightarrow> legal_sextets (map enc6 vs) = vs"
  by (induction vs) (simp_all add: unbase64_enc6)

lemma from_to_sextets:
  "\<forall>x \<in> set bs. x < 256 \<Longrightarrow> from_sextets (to_sextets bs) = bs"
proof (induction bs rule: to_sextets.induct)
  case (1 x y z r)
  then have b: "y < 256" "z < 256" and r: "from_sextets (to_sextets r) = r" by simp_all
  show ?case
    by (simp only: to_sextets.simps append.simps from_sextets.simps r
        sextet_join(1)[OF b(1)] sextet_join(2)[OF b] sextet_join(3)[OF b(2)])
next
  case (2 x y)
  then have b: "y < 256" by simp
  show ?case
    by (simp only: to_sextets.simps from_sextets.simps sextet_join(1)[OF b] sextet_join(4)[OF b])
next
  case (3 x)
  show ?case by (simp only: to_sextets.simps from_sextets.simps sextet_join(5))
qed simp

lemma low_bytes_base64url_encode:
  "map (\<lambda>u. unat u mod 256) (base64url_encode b) = map enc6 (to_sextets (map unat b))"
proof -
  have "unat (of_nat (enc6 n) :: 16 word) mod 256 = enc6 n" for n
    unfolding unat_enc6 using enc6_less[of n] by simp
  then show ?thesis by (simp add: base64url_encode_def comp_def)
qed

lemma base64url_roundtrip: "base64url_decode (base64url_encode b) = b"
proof -
  have bd: "\<forall>x \<in> set (map unat b). x < 256" by (simp add: unat_byte)
  have "legal_sextets (map enc6 (to_sextets (map unat b))) = to_sextets (map unat b)"
    using to_sextets_bound[OF bd] by (rule legal_sextets_enc6)
  then show ?thesis
    unfolding base64url_decode_def low_bytes_base64url_encode
    by (simp only: from_to_sextets[OF bd] map_of_nat_unat)
qed

lemma dropWhile_hd:
  "xs \<noteq> [] \<Longrightarrow> \<not> P (hd xs) \<Longrightarrow> dropWhile P xs = xs"
  by (cases xs) simp_all

lemma trim_id:
  "s \<noteq> [] \<Longrightarrow> \<not> is_space (hd s) \<Longrightarrow> \<not> is_space (last s) \<Longrightarrow> trim s = s"
  by (simp add: trim_def dropWhile_hd hd_rev)

lemma to_sextets_Nil: "to_sextets bs = [] \<longleftrightarrow> bs = []"
  by (induction bs rule: to_sextets.induct) simp_all

lemma trim_base64url_encode: "trim (base64url_encode b) = base64url_encode b"
proof (cases "base64url_encode b = []")
  case True
  then show ?thesis by (simp add: trim_def)
next
  case False
  then have ne: "to_sextets (map unat b) \<noteq> []" by (simp add: base64url_encode_def)
  have "\<not> is_space (hd (base64url_encode b))"
    using ne by (simp add: base64url_encode_def hd_map enc6_not_space)
  moreover have "\<not> is_space (last (base64url_encode b))"
    using ne by (simp add: base64url_encode_def last_map enc6_not_space)
  ultimately show ?thesis using False by (simp add: trim_id)
qed

lemma base64url_encode_nonempty: "b \<noteq> [] \<Longrightarrow> base64url_encode b \<noteq> []"
  by (simp add: base64url_encode_def to_sextets_Nil)

section \<open>Quoting and parsing a string\<close>

lemma unat_hexdigit: "d < 16 \<Longrightarrow> unat (hexdigit d) = (if d < 10 then 48 + d else 87 + d)"
  by (simp add: hexdigit_def unat_of_nat_unit)

lemma hexval_hexdigit: "d < 16 \<Longrightarrow> hexval (hexdigit d) = Some d"
  by (auto simp: hexval_def unat_hexdigit Let_def)

lemma hex4_digits:
  assumes "n < 65536"
  shows "hex4 (hexdigit (n div 4096)) (hexdigit ((n div 256) mod 16))
           (hexdigit ((n div 16) mod 16)) (hexdigit (n mod 16)) = Some n"
proof -
  define a where "a = n div 4096"
  define b where "b = (n div 256) mod 16"
  define c where "c = (n div 16) mod 16"
  define d where "d = n mod 16"
  have "n div 256 div 16 = n div 4096" by (simp add: div_mult2_eq[symmetric])
  then have 1: "n div 256 = a * 16 + b"
    unfolding a_def b_def using div_mult_mod_eq[of "n div 256" 16] by simp
  have "n div 16 div 16 = n div 256" by (simp add: div_mult2_eq[symmetric])
  then have 2: "n div 16 = n div 256 * 16 + c"
    unfolding c_def using div_mult_mod_eq[of "n div 16" 16] by simp
  have "(a * 16 + b) * 16 + c = n div 16" by (simp only: 1[symmetric] 2[symmetric])
  then have n: "((a * 16 + b) * 16 + c) * 16 + d = n"
    unfolding d_def by (simp only: div_mult_mod_eq)
  have r: "a < 16" "b < 16" "c < 16" "d < 16"
    using assms unfolding a_def b_def c_def d_def by simp_all
  show ?thesis
    unfolding a_def[symmetric] b_def[symmetric] c_def[symmetric] d_def[symmetric]
    using n by (simp add: hex4_def hexval_hexdigit r)
qed

lemma ch_simps:
  "ch CHR 0x22 = 34" "ch CHR 0x5C = 92" "ch CHR ''u'' = 117" "ch CHR ''b'' = 98"
  "ch CHR ''f'' = 102" "ch CHR ''n'' = 110" "ch CHR ''r'' = 114" "ch CHR ''t'' = 116"
  "ch CHR ''/'' = 47"
  by (simp_all add: ch_def)

lemma parse_chars_unicode_escape:
  assumes "n < 65536"
  shows "parse_chars (unicode_escape n @ t) = prepend [of_nat n] (parse_chars t)"
  using assms by (simp add: unicode_escape_def hex4_digits ch_simps)

lemma parse_chars_plain:
  assumes "unat c \<noteq> 34" "unat c \<noteq> 92" "\<not> unat c < 32"
  shows "parse_chars (c # t) = prepend [c] (parse_chars t)"
proof -
  have "c \<noteq> 34" "c \<noteq> 92" using assms by auto
  then show ?thesis using assms(3) by (simp add: ch_simps)
qed

lemma unit_by_unat: "unat (c :: 16 word) = n \<Longrightarrow> c = of_nat n"
  by auto

lemma parse_chars_quote_unit:
  "parse_chars (quote_unit c @ t) = prepend [c] (parse_chars t)"
proof -
  let ?n = "unat c"
  consider "?n = 34" | "?n = 92" | "?n = 8" | "?n = 12" | "?n = 10" | "?n = 13" | "?n = 9"
    | "?n < 32 \<or> lead_surrogate ?n \<or> trail_surrogate ?n" "?n \<notin> {34, 92, 8, 12, 10, 13, 9}"
    | "\<not> ?n < 32" "?n \<noteq> 34" "?n \<noteq> 92" "\<not> lead_surrogate ?n" "\<not> trail_surrogate ?n"
    by auto
  then show ?thesis
  proof cases
    case 1
    then have "c = 34" by (auto dest: unit_by_unat)
    then show ?thesis by (simp add: quote_unit_def unescape_def ch_simps)
  next
    case 2
    then have "c = 92" by (auto dest: unit_by_unat)
    then show ?thesis by (simp add: quote_unit_def unescape_def ch_simps)
  next
    case 3
    then have "c = 8" by (auto dest: unit_by_unat)
    then show ?thesis by (simp add: quote_unit_def unescape_def ch_simps)
  next
    case 4
    then have "c = 12" by (auto dest: unit_by_unat)
    then show ?thesis by (simp add: quote_unit_def unescape_def ch_simps)
  next
    case 5
    then have "c = 10" by (auto dest: unit_by_unat)
    then show ?thesis by (simp add: quote_unit_def unescape_def ch_simps)
  next
    case 6
    then have "c = 13" by (auto dest: unit_by_unat)
    then show ?thesis by (simp add: quote_unit_def unescape_def ch_simps)
  next
    case 7
    then have "c = 9" by (auto dest: unit_by_unat)
    then show ?thesis by (simp add: quote_unit_def unescape_def ch_simps)
  next
    case 8
    then have "quote_unit c = unicode_escape ?n"
      by (auto simp: quote_unit_def Let_def)
    then show ?thesis using parse_chars_unicode_escape[OF unat_unit, of c t] by simp
  next
    case 9
    then have "quote_unit c = [c]" by (simp add: quote_unit_def Let_def)
    then show ?thesis using parse_chars_plain[OF 9(2) 9(3) 9(1), of t] by simp
  qed
qed

lemma surrogate_plain:
  assumes "lead_surrogate (unat c) \<or> trail_surrogate (unat c)"
  shows "parse_chars (c # t) = prepend [c] (parse_chars t)"
  using assms by (intro parse_chars_plain) (auto simp: lead_surrogate_def trail_surrogate_def)

lemma prepend_prepend: "prepend a (prepend b r) = prepend (a @ b) r"
  by (simp add: prepend_def split: option.splits)

lemma parse_chars_quoted:
  "parse_chars (quote_units s @ ch CHR 0x22 # rest) = Some (s, rest)"
proof (induction s rule: quote_units.induct)
  case (1 u v r)
  show ?case
  proof (cases "lead_surrogate (unat u) \<and> trail_surrogate (unat v)")
    case True
    then have "parse_chars (u # v # quote_units r @ ch CHR 0x22 # rest)
        = prepend [u] (prepend [v] (parse_chars (quote_units r @ ch CHR 0x22 # rest)))"
      using surrogate_plain[of u] surrogate_plain[of v] by simp
    with True 1(1) show ?thesis by (simp add: prepend_def del: parse_chars.simps)
  next
    case False
    then have "quote_units (u # v # r) @ ch CHR 0x22 # rest
        = quote_unit u @ quote_units (v # r) @ ch CHR 0x22 # rest" by auto
    then show ?thesis
      by (simp only: parse_chars_quote_unit 1(2)[OF False]) (simp add: prepend_def)
  qed
next
  case (2 u)
  have "parse_chars (quote_unit u @ ch CHR 0x22 # rest)
      = prepend [u] (parse_chars (ch CHR 0x22 # rest))"
    by (rule parse_chars_quote_unit)
  then show ?case by (simp add: prepend_def)
next
  case 3
  show ?case by simp
qed

section \<open>Parsing the serialisation\<close>

lemma skip_ws_quote: "skip_ws (ch CHR 0x22 # t) = ch CHR 0x22 # t"
  by (simp add: skip_ws_def is_ws_def unat_ch)

lemma parse_value_quoted:
  "parse_value (Suc n) (QuoteJSONString v @ rest) = Some (JStr v, rest)"
  by (simp add: QuoteJSONString_def skip_ws_quote parse_chars_quoted ch_eq_iff)

lemma skip_ws_ch:
  "skip_ws (ch CHR '':'' # t) = ch CHR '':'' # t"
  "skip_ws (ch CHR '','' # t) = ch CHR '','' # t"
  "skip_ws (ch CHR ''}'' # t) = ch CHR ''}'' # t"
  "skip_ws (ch CHR ''{'' # t) = ch CHR ''{'' # t"
  by (simp_all add: skip_ws_def is_ws_def unat_ch)

lemma parse_members_more:
  "parse_members (Suc (Suc n))
     (QuoteJSONString k @ ch CHR '':'' # QuoteJSONString v @ ch CHR '','' # rest)
   = (case parse_members (Suc n) rest of
        None \<Rightarrow> None
      | Some (kvs, r) \<Rightarrow> Some ((k, JStr v) # kvs, r))"
proof -
  have "parse_members (Suc (Suc n))
          (ch CHR 0x22 # quote_units k @ ch CHR 0x22 # ch CHR '':'' # QuoteJSONString v
             @ ch CHR '','' # rest)
        = (case parse_members (Suc n) rest of
             None \<Rightarrow> None
           | Some (kvs, r) \<Rightarrow> Some ((k, JStr v) # kvs, r))"
    by (simp only: parse_members.simps)
       (simp add: skip_ws_quote skip_ws_ch parse_chars_quoted parse_value_quoted ch_eq_iff
          del: parse_value.simps parse_members.simps)
  then show ?thesis by (simp add: QuoteJSONString_def)
qed

lemma parse_members_last:
  "parse_members (Suc (Suc n))
     (QuoteJSONString k @ ch CHR '':'' # QuoteJSONString v @ ch CHR ''}'' # rest)
   = Some ([(k, JStr v)], rest)"
proof -
  have "parse_members (Suc (Suc n))
          (ch CHR 0x22 # quote_units k @ ch CHR 0x22 # ch CHR '':'' # QuoteJSONString v
             @ ch CHR ''}'' # rest)
        = Some ([(k, JStr v)], rest)"
    by (simp only: parse_members.simps)
       (simp add: skip_ws_quote skip_ws_ch parse_chars_quoted parse_value_quoted ch_eq_iff
          del: parse_value.simps parse_members.simps)
  then show ?thesis by (simp add: QuoteJSONString_def)
qed

lemma parse_value_object:
  "parse_value (Suc n) (ch CHR ''{'' # ch CHR 0x22 # t)
   = (case parse_members n (ch CHR 0x22 # t) of
        None \<Rightarrow> None
      | Some (kvs, r) \<Rightarrow> Some (JObj kvs, r))"
  by (simp add: skip_ws_quote skip_ws_ch ch_eq_iff del: parse_members.simps)

lemma parse_value_stringify:
  "parse_value (Suc (Suc (Suc (Suc (Suc (Suc (Suc (Suc n)))))))) (JSON_stringify s @ rest)
   = Some (source_json s, rest)"
proof -
  have q: "\<And>k t. QuoteJSONString k @ t = ch CHR 0x22 # quote_units k @ ch CHR 0x22 # t"
    by (simp add: QuoteJSONString_def)
  have *: "parse_members (Suc (Suc (Suc (Suc (Suc (Suc (Suc n)))))))
       (QuoteJSONString (js ''srcAccount'') @ ch CHR '':'' # QuoteJSONString (srcAccount s) @ ch CHR '','' #
        QuoteJSONString (js ''srcCalendar'') @ ch CHR '':'' # QuoteJSONString (srcCalendar s) @ ch CHR '','' #
        QuoteJSONString (js ''eventId'') @ ch CHR '':'' # QuoteJSONString (eventId s) @ ch CHR '','' #
        QuoteJSONString (js ''start'') @ ch CHR '':'' # QuoteJSONString (start_s s) @ ch CHR '','' #
        QuoteJSONString (js ''end'') @ ch CHR '':'' # QuoteJSONString (end_s s) @ ch CHR '','' #
        QuoteJSONString (js ''title'') @ ch CHR '':'' # QuoteJSONString (title s) @ ch CHR ''}'' # rest)
     = Some ([(js ''srcAccount'', JStr (srcAccount s)), (js ''srcCalendar'', JStr (srcCalendar s)),
     (js ''eventId'', JStr (eventId s)), (js ''start'', JStr (start_s s)), (js ''end'', JStr (end_s s)),
     (js ''title'', JStr (title s))], rest)"
    by (simp only: parse_members_more parse_members_last option.simps prod.simps)
  have "parse_value (Suc (Suc (Suc (Suc (Suc (Suc (Suc (Suc n))))))))
      (ch CHR ''{'' # QuoteJSONString (js ''srcAccount'') @ ch CHR '':'' # QuoteJSONString (srcAccount s) @ ch CHR '','' #
        QuoteJSONString (js ''srcCalendar'') @ ch CHR '':'' # QuoteJSONString (srcCalendar s) @ ch CHR '','' #
        QuoteJSONString (js ''eventId'') @ ch CHR '':'' # QuoteJSONString (eventId s) @ ch CHR '','' #
        QuoteJSONString (js ''start'') @ ch CHR '':'' # QuoteJSONString (start_s s) @ ch CHR '','' #
        QuoteJSONString (js ''end'') @ ch CHR '':'' # QuoteJSONString (end_s s) @ ch CHR '','' #
        QuoteJSONString (js ''title'') @ ch CHR '':'' # QuoteJSONString (title s) @ ch CHR ''}'' # rest)
     = Some (source_json s, rest)"
    unfolding q[of "js ''srcAccount''"] parse_value_object
    by (fold q) (simp only: * source_json_def option.simps prod.simps)
  then show ?thesis by (simp add: JSON_stringify_def js_Cons js_Nil)
qed

lemma JSON_stringify_length: "3 \<le> length (JSON_stringify s)"
  by (simp add: JSON_stringify_def QuoteJSONString_def js_def)

lemma JSON_parse_stringify: "JSON_parse (JSON_stringify s) = Some (source_json s)"
proof -
  define n where "n = 2 * length (JSON_stringify s) - 6"
  have n: "2 * length (JSON_stringify s) + 2 = Suc (Suc (Suc (Suc (Suc (Suc (Suc (Suc n)))))))"
    using JSON_stringify_length[of s] unfolding n_def by arith
  show ?thesis
    unfolding JSON_parse_def n using parse_value_stringify[of n s "[]"]
    by (simp add: skip_ws_def)
qed

lemma string_property_source_json:
  "string_property (source_json s) (js ''srcAccount'') = Some (srcAccount s)"
  "string_property (source_json s) (js ''srcCalendar'') = Some (srcCalendar s)"
  "string_property (source_json s) (js ''eventId'') = Some (eventId s)"
  "string_property (source_json s) (js ''start'') = Some (start_s s)"
  "string_property (source_json s) (js ''end'') = Some (end_s s)"
  "string_property (source_json s) (js ''title'') = Some (title s)"
  by (simp_all add: string_property_def source_json_def js_eq_iff)

section \<open>The serialisation is well formed\<close>

lemma not_surrogate_ch: "\<not> lead_surrogate (unat (ch c))" "\<not> trail_surrogate (unat (ch c))"
proof -
  have "(of_char c :: nat) < 256" by (rule nat_of_char_less_256)
  then show "\<not> lead_surrogate (unat (ch c))" "\<not> trail_surrogate (unat (ch c))"
    unfolding unat_ch lead_surrogate_def trail_surrogate_def by linarith+
qed

lemma well_formed_js: "well_formed (map unat (js s))"
  by (induction s) (simp_all add: js_Nil js_Cons well_formed_Cons not_surrogate_ch)

lemma not_surrogate_hexdigit:
  "d < 16 \<Longrightarrow> \<not> lead_surrogate (unat (hexdigit d)) \<and> \<not> trail_surrogate (unat (hexdigit d))"
  by (simp add: unat_hexdigit lead_surrogate_def trail_surrogate_def)

lemma well_formed_unicode_escape:
  "n < 65536 \<Longrightarrow> well_formed (map unat (unicode_escape n))"
proof -
  assume "n < 65536"
  then have "n div 4096 < 16" by simp
  then show ?thesis
    by (simp add: unicode_escape_def well_formed_Cons not_surrogate_ch not_surrogate_hexdigit)
qed

lemma well_formed_quote_unit: "well_formed (map unat (quote_unit u))"
  using well_formed_unicode_escape[OF unat_unit, of u]
  by (simp add: quote_unit_def Let_def well_formed_Cons not_surrogate_ch)

lemma well_formed_quote_units: "well_formed (map unat (quote_units s))"
proof (induction s rule: quote_units.induct)
  case (1 u v r)
  then show ?case
    by (cases "lead_surrogate (unat u) \<and> trail_surrogate (unat v)")
       (auto simp: well_formed_append well_formed_quote_unit)
next
  case (2 u)
  show ?case by (simp add: well_formed_quote_unit)
qed simp

lemma well_formed_QuoteJSONString: "well_formed (map unat (QuoteJSONString s))"
  unfolding QuoteJSONString_def
  by (simp add: well_formed_Cons not_surrogate_ch well_formed_append well_formed_quote_units)

lemma well_formed_JSON_stringify: "well_formed (map unat (JSON_stringify s))"
  unfolding JSON_stringify_def
  by (simp add: well_formed_append well_formed_js well_formed_QuoteJSONString)

section \<open>The codec round trip\<close>

lemma JSON_stringify_nonempty: "JSON_stringify s \<noteq> []"
  using JSON_stringify_length[of s] by auto

lemma Buffer_from_utf8_nonempty: "s \<noteq> [] \<Longrightarrow> Buffer_from_utf8 s \<noteq> []"
proof -
  assume "s \<noteq> []"
  then obtain u r where s: "map unat s = u # r" by (cases s) auto
  have "code_points (u # r) \<noteq> []" by (cases r) simp_all
  then obtain cp cps where c: "code_points (map unat s) = cp # cps"
    unfolding s by (cases "code_points (u # r)") auto
  have "utf8_encode cp \<noteq> []" by (simp add: utf8_encode_def)
  then show ?thesis by (simp add: Buffer_from_utf8_def c)
qed

lemma indexOf_prefix: "pat \<noteq> [] \<Longrightarrow> indexOf (pat @ t) pat = Some 0"
  by (cases pat) simp_all

lemma decode_encode: "decodeSourceRef (Some (encodeSourceRef s)) = Some s"
proof -
  let ?b = "base64url_encode (Buffer_from_utf8 (JSON_stringify s))"
  have i: "indexOf (METADATA_PREFIX @ ?b) METADATA_PREFIX = Some 0"
    by (rule indexOf_prefix) (simp add: METADATA_PREFIX_def js_def)
  have ne: "?b \<noteq> []"
    by (simp add: base64url_encode_nonempty Buffer_from_utf8_nonempty JSON_stringify_nonempty)
  have p: "METADATA_PREFIX \<noteq> []" by (simp add: METADATA_PREFIX_def js_def)
  show ?thesis
    unfolding decodeSourceRef_def encodeSourceRef_def
    by (simp add: i ne p trim_base64url_encode base64url_roundtrip
        toString_utf8_Buffer_from_utf8[OF well_formed_JSON_stringify] JSON_parse_stringify
        string_property_source_json del: indexOf.simps)
qed

subsection \<open>C8: the codec round trip\<close>

text \<open>
  C8.  For every \<open>SourceRef\<close> (six string fields), \<open>encodeSourceRef\<close> is the literal
  \<open>SYNCV1:\<close> followed by the unpadded base64url encoding of the JSON serialisation (of its
  bytes in UTF-8), and
  \<open>decodeSourceRef\<close> of that tag returns the \<open>SourceRef\<close> itself: the decoder finds the
  prefix at index 0, trimming changes nothing, the payload is not empty, the parser returns
  within its fuel, and the six fields pass the type checks.
\<close>

theorem encodeSourceRef_roundtrip:
  "encodeSourceRef s = js ''SYNCV1:'' @ base64url_encode (Buffer_from_utf8 (JSON_stringify s))
   \<and> decodeSourceRef (Some (encodeSourceRef s)) = Some s"
  using decode_encode[of s] by (simp add: encodeSourceRef_def METADATA_PREFIX_def)

subsection \<open>C9: what the key identifies\<close>

text \<open>
  C9, as the code has it.  Two \<open>SourceRef\<close> values that agree on \<open>srcAccount\<close>,
  \<open>srcCalendar\<close>, \<open>eventId\<close>, \<open>start\<close> and \<open>end\<close> have the same key, and the title never
  affects the key.  Conversely, equal keys force agreement on the five fields when, in both
  values, none of \<open>srcAccount\<close>, \<open>srcCalendar\<close>, \<open>eventId\<close>, \<open>start\<close> contains the delimiter
  \<open>::\<close> or ends in a colon (\<open>end\<close> is unconstrained).
\<close>

theorem holdKey_characterization:
  "(same_occurrence s1 s2 \<longrightarrow> holdKey s1 = holdKey s2)
   \<and> holdKey (s1\<lparr>title := t\<rparr>) = holdKey s1
   \<and> (key_fields_safe s1 \<and> key_fields_safe s2 \<longrightarrow>
        (holdKey s1 = holdKey s2) = same_occurrence s1 s2)"
proof (intro conjI impI)
  assume "same_occurrence s1 s2"
  then show "holdKey s1 = holdKey s2" by (rule holdKey_cong)
next
  show "holdKey (s1\<lparr>title := t\<rparr>) = holdKey s1" by (simp add: holdKey_def)
next
  assume "key_fields_safe s1 \<and> key_fields_safe s2"
  then show "(holdKey s1 = holdKey s2) = same_occurrence s1 s2"
    using holdKey_inj[of s1 s2] holdKey_cong[of s1 s2] by blast
qed

text \<open>The characterisation at two references to one occurrence with different titles, and
  ISO instants (which hold single colons) in \<open>start\<close> and \<open>end\<close>.\<close>

theorem holdKey_characterization_witness:
  "same_occurrence
     \<lparr>srcAccount = js ''source@example.com'', srcCalendar = js ''work'', eventId = js ''abc123'',
      start_s = js ''2026-03-01T14:00:00.000Z'', end_s = js ''2026-03-01T15:00:00.000Z'',
      title = js ''Standup''\<rparr>
     \<lparr>srcAccount = js ''source@example.com'', srcCalendar = js ''work'', eventId = js ''abc123'',
      start_s = js ''2026-03-01T14:00:00.000Z'', end_s = js ''2026-03-01T15:00:00.000Z'',
      title = js ''Daily''\<rparr>
   \<and> key_fields_safe
     \<lparr>srcAccount = js ''source@example.com'', srcCalendar = js ''work'', eventId = js ''abc123'',
      start_s = js ''2026-03-01T14:00:00.000Z'', end_s = js ''2026-03-01T15:00:00.000Z'',
      title = js ''Standup''\<rparr>
   \<and> key_fields_safe
     \<lparr>srcAccount = js ''source@example.com'', srcCalendar = js ''work'', eventId = js ''abc123'',
      start_s = js ''2026-03-01T14:00:00.000Z'', end_s = js ''2026-03-01T15:00:00.000Z'',
      title = js ''Daily''\<rparr>
   \<and> holdKey
     \<lparr>srcAccount = js ''source@example.com'', srcCalendar = js ''work'', eventId = js ''abc123'',
      start_s = js ''2026-03-01T14:00:00.000Z'', end_s = js ''2026-03-01T15:00:00.000Z'',
      title = js ''Standup''\<rparr>
   = holdKey
     \<lparr>srcAccount = js ''source@example.com'', srcCalendar = js ''work'', eventId = js ''abc123'',
      start_s = js ''2026-03-01T14:00:00.000Z'', end_s = js ''2026-03-01T15:00:00.000Z'',
      title = js ''Daily''\<rparr>"
  using holdKey_characterization[of
     "\<lparr>srcAccount = js ''source@example.com'', srcCalendar = js ''work'', eventId = js ''abc123'',
      start_s = js ''2026-03-01T14:00:00.000Z'', end_s = js ''2026-03-01T15:00:00.000Z'',
      title = js ''Standup''\<rparr>"
     "\<lparr>srcAccount = js ''source@example.com'', srcCalendar = js ''work'', eventId = js ''abc123'',
      start_s = js ''2026-03-01T14:00:00.000Z'', end_s = js ''2026-03-01T15:00:00.000Z'',
      title = js ''Daily''\<rparr>"]
  by (simp add: same_occurrence_def key_fields_safe_def colon_safe_def js_Cons js_Nil ch_eq_iff)

text \<open>Without the restriction the key does not identify the occurrence: a field that holds
  the delimiter shifts the field boundaries.\<close>

theorem holdKey_collision_counterexample:
  "holdKey \<lparr>srcAccount = js ''a::b'', srcCalendar = js ''c'', eventId = js ''e'',
      start_s = js ''s'', end_s = js ''t'', title = js ''x''\<rparr>
   = holdKey \<lparr>srcAccount = js ''a'', srcCalendar = js ''b::c'', eventId = js ''e'',
      start_s = js ''s'', end_s = js ''t'', title = js ''x''\<rparr>
   \<and> \<not> same_occurrence
      \<lparr>srcAccount = js ''a::b'', srcCalendar = js ''c'', eventId = js ''e'',
       start_s = js ''s'', end_s = js ''t'', title = js ''x''\<rparr>
      \<lparr>srcAccount = js ''a'', srcCalendar = js ''b::c'', eventId = js ''e'',
       start_s = js ''s'', end_s = js ''t'', title = js ''x''\<rparr>"
  by (simp add: holdKey_def same_occurrence_def js_Cons js_Nil ch_eq_iff)

section \<open>The parser does not run out of fuel\<close>

text \<open>Every parser consumes input, so the fuel that \<open>JSON_parse\<close> supplies is enough: with
  any larger fuel the result is the same, and \<open>None\<close> is a syntax error.\<close>

lemma prepend_Some: "prepend p res = Some (x, r) \<Longrightarrow> \<exists>y. res = Some (y, r)"
  by (auto simp: prepend_def split: option.splits)

lemma parse_chars_shorter: "parse_chars s = Some (x, r) \<Longrightarrow> length r < length s"
proof (induction s arbitrary: x r rule: length_induct)
  case (1 s)
  have IH: "length q < length t" if "parse_chars t = Some (y, q)" "length t < length s" for t y q
    using 1 that by blast
  show ?case
  proof (cases s)
    case Nil
    with "1.prems" show ?thesis by simp
  next
    case (Cons c cs)
    with "1.prems" show ?thesis
      by (auto split: if_splits list.splits option.splits dest!: prepend_Some)
         (drule IH, simp, simp)+
  qed
qed


lemma skip_ws_length: "length (skip_ws s) \<le> length s"
  by (simp add: skip_ws_def length_dropWhile_le)

lemma skip_ws_Cons: "skip_ws s = c # r \<Longrightarrow> length r < length s"
  using skip_ws_length[of s] by simp

lemma parse_digits1_shorter: "parse_digits1 s = Some (x, r) \<Longrightarrow> length r \<le> length s"
  by (auto simp: parse_digits1_def length_dropWhile_le split: if_splits)

lemma parse_number_shorter: "parse_number s = Some (x, r) \<Longrightarrow> length r < length s"
proof -
  assume a: "parse_number s = Some (x, r)"
  obtain sign s1 where s1: "(case s of c # r \<Rightarrow> if c = ch CHR ''-'' then ([c], r) else ([], s) | [] \<Rightarrow> ([], s)) = (sign, s1)"
    by (cases "(case s of c # r \<Rightarrow> if c = ch CHR ''-'' then ([c], r) else ([], s) | [] \<Rightarrow> ([], s))") auto
  then have l1: "length s1 \<le> length s" by (auto split: list.splits if_splits)
  from a s1 obtain ip s2 where ip: "parse_int_part s1 = Some (ip, s2)"
    by (auto simp: parse_number_def split: option.splits)
  then have l2: "length s2 < length s1"
    by (auto simp: parse_int_part_def length_dropWhile_le less_Suc_eq_le split: list.splits if_splits)
  from a s1 ip obtain fp s3 where fp: "parse_frac s2 = Some (fp, s3)"
    by (auto simp: parse_number_def split: option.splits)
  then have l3: "length s3 \<le> length s2"
    by (auto simp: parse_frac_def split: list.splits if_splits
        dest!: prepend_Some parse_digits1_shorter)
  from a s1 ip fp obtain y where "parse_exp s3 = Some (y, r)"
    by (auto simp: parse_number_def dest!: prepend_Some)
  then have "length r \<le> length s3"
    by (auto simp: parse_exp_def split: list.splits if_splits
        dest!: prepend_Some parse_digits1_shorter)
  with l1 l2 l3 show ?thesis by simp
qed

lemma parse_literal_shorter:
  "parse_literal lit v s = Some (x, r) \<Longrightarrow> lit \<noteq> [] \<Longrightarrow> length r < length s"
  by (cases s) (auto simp: parse_literal_def split: if_splits)

lemma parse_literal_js_shorter:
  "parse_literal (js (c # l)) v s = Some (x, r) \<Longrightarrow> length r < length s"
  by (erule parse_literal_shorter) (simp add: js_Cons)

lemma parse_shorter:
  "(parse_value n s = Some (v, r) \<longrightarrow> length r < length s)
   \<and> (parse_elems n s = Some (vs, r) \<longrightarrow> length r < length s)
   \<and> (parse_members n s = Some (kvs, r) \<longrightarrow> length r < length s)"
proof (induction n arbitrary: s v vs kvs r)
  case 0
  show ?case by simp
next
  case (Suc n)
  have V: "parse_value n t = Some (w, q) \<Longrightarrow> length q < length t" for t w q
    using Suc by blast
  have E: "parse_elems n t = Some (w, q) \<Longrightarrow> length q < length t" for t w q
    using Suc by blast
  have M: "parse_members n t = Some (w, q) \<Longrightarrow> length q < length t" for t w q
    using Suc by blast
  have 1: "length r < length s" if "parse_value (Suc n) s = Some (v, r)"
    using that
    by (auto split: list.splits if_splits option.splits
        dest!: skip_ws_Cons parse_chars_shorter parse_number_shorter E M
        dest: parse_literal_js_shorter)
  have 2: "length r < length s" if "parse_elems (Suc n) s = Some (vs, r)"
    using that
    by (auto split: list.splits if_splits option.splits dest!: skip_ws_Cons V E)
  have 3: "length r < length s" if "parse_members (Suc n) s = Some (kvs, r)"
    using that
    by (auto split: list.splits if_splits option.splits
        dest!: skip_ws_Cons parse_chars_shorter V M)
  from 1 2 3 show ?case by blast
qed


lemma parse_value_shorter: "parse_value n s = Some (v, r) \<Longrightarrow> length r < length s"
  using parse_shorter[of n s v r] by blast

lemma parse_fuel:
  "(2 * length s + 1 \<le> n \<and> n \<le> m \<longrightarrow> parse_value m s = parse_value n s)
   \<and> (2 * length s + 2 \<le> n \<and> n \<le> m \<longrightarrow> parse_elems m s = parse_elems n s)
   \<and> (2 * length s + 1 \<le> n \<and> n \<le> m \<longrightarrow> parse_members m s = parse_members n s)"
proof (induction n arbitrary: s m)
  case 0
  show ?case by simp
next
  case (Suc n)
  have V: "parse_value k t = parse_value n t" if "2 * length t + 1 \<le> n" "n \<le> k" for t k
    using Suc that by blast
  have E: "parse_elems k t = parse_elems n t" if "2 * length t + 2 \<le> n" "n \<le> k" for t k
    using Suc that by blast
  have M: "parse_members k t = parse_members n t" if "2 * length t + 1 \<le> n" "n \<le> k" for t k
    using Suc that by blast
  have 1: "parse_value m s = parse_value (Suc n) s" if "2 * length s + 1 \<le> Suc n" "Suc n \<le> m"
  proof -
    from that obtain k where m: "m = Suc k" "n \<le> k" by (cases m) auto
    have e: "parse_elems k t = parse_elems n t" if "length t < length s" for t
      using that \<open>2 * length s + 1 \<le> Suc n\<close> m(2) by (intro E) auto
    have mm: "parse_members k t = parse_members n t" if "length t < length s" for t
      using that \<open>2 * length s + 1 \<le> Suc n\<close> m(2) by (intro M) auto
    show ?thesis
    proof (cases "skip_ws s")
      case Nil
      then show ?thesis by (simp add: m)
    next
      case (Cons c r)
      then have lr: "length r < length s" by (rule skip_ws_Cons)
      show ?thesis
      proof (cases "skip_ws r")
        case Nil
        with Cons show ?thesis by (simp add: m)
      next
        case (Cons c' r')
        then have "length (c' # r') < length s"
          using lr skip_ws_length[of r] by simp
        then have "parse_elems k (c' # r') = parse_elems n (c' # r')"
          "parse_members k (c' # r') = parse_members n (c' # r')"
          by (rule e, rule mm)
        with Cons \<open>skip_ws s = c # r\<close> show ?thesis by (auto simp: m)
      qed
    qed
  qed
  have 2: "parse_elems m s = parse_elems (Suc n) s" if "2 * length s + 2 \<le> Suc n" "Suc n \<le> m"
  proof -
    from that obtain k where m: "m = Suc k" "n \<le> k" by (cases m) auto
    have v: "parse_value k s = parse_value n s" using that m(2) by (intro V) auto
    show ?thesis
    proof (cases "parse_value n s")
      case None
      with v show ?thesis by (simp add: m)
    next
      case (Some a)
      obtain w q where a: "a = (w, q)" by (cases a)
      have lq: "length q < length s" using Some a parse_value_shorter by blast
      show ?thesis
      proof (cases "skip_ws q")
        case Nil
        with Some a v show ?thesis by (simp add: m)
      next
        case (Cons c r')
        then have "length r' < length q" by (rule skip_ws_Cons)
        with lq that(1) m(2) have "parse_elems k r' = parse_elems n r'" by (intro E) auto
        with Some a v Cons show ?thesis by (simp add: m)
      qed
    qed
  qed
  have 3: "parse_members m s = parse_members (Suc n) s" if "2 * length s + 1 \<le> Suc n" "Suc n \<le> m"
  proof -
    from that obtain k where m: "m = Suc k" "n \<le> k" by (cases m) auto
    show ?thesis
    proof (cases "skip_ws s")
      case Nil
      then show ?thesis by (simp add: m)
    next
      case (Cons q0 r)
      then have lr: "length r < length s" by (rule skip_ws_Cons)
      show ?thesis
      proof (cases "parse_chars r")
        case None
        with Cons show ?thesis by (simp add: m)
      next
        case (Some a)
        obtain key r1 where a: "a = (key, r1)" by (cases a)
        have l1: "length r1 < length r" using Some a parse_chars_shorter by blast
        show ?thesis
        proof (cases "skip_ws r1")
          case Nil
          with Cons Some a show ?thesis by (simp add: m)
        next
          case c2: (Cons c r2)
          then have l2: "length r2 < length r1" by (rule skip_ws_Cons)
          with l1 lr that(1) m(2) have v: "parse_value k r2 = parse_value n r2"
            by (intro V) auto
          show ?thesis
          proof (cases "parse_value n r2")
            case None
            with Cons Some a c2 v show ?thesis by (simp add: m)
          next
            case s2: (Some b)
            obtain w r3 where b: "b = (w, r3)" by (cases b)
            have l3: "length r3 < length r2" using s2 b parse_value_shorter by blast
            show ?thesis
            proof (cases "skip_ws r3")
              case Nil
              with Cons Some a c2 v s2 b show ?thesis by (simp add: m)
            next
              case c4: (Cons d r4)
              then have "length r4 < length r3" by (rule skip_ws_Cons)
              with l3 l2 l1 lr that(1) m(2) have "parse_members k r4 = parse_members n r4"
                by (intro M) auto
              with Cons Some a c2 v s2 b c4 show ?thesis by (simp add: m)
            qed
          qed
        qed
      qed
    qed
  qed
  from 1 2 3 show ?case by blast
qed

lemma JSON_parse_fuel:
  "2 * length s + 2 \<le> m \<Longrightarrow>
   JSON_parse s = (case parse_value m s of
       None \<Rightarrow> None
     | Some (v, r) \<Rightarrow> if skip_ws r = [] then Some v else None)"
  using parse_fuel[of s "2 * length s + 2" m] by (simp add: JSON_parse_def)

section \<open>The planner as budget check over candidates\<close>

lemma budget_state_Nil: "budget_state N [] st = st"
  by (simp add: budget_state_def mutations_def)

lemma budget_state_append:
  "budget_state N (cs @ ds) st = budget_state N ds (budget_state N cs st)"
proof (induction cs arbitrary: st)
  case Nil
  show ?case by (simp add: budget_state_Nil)
next
  case (Cons a cs)
  have step: "budget_state N (a # xs) st = budget_state N xs (budget_state N [a] st)" for xs st
  proof (cases "is_mutation a")
    case True
    show ?thesis
    proof (cases "changes_st st \<ge> N")
      case True
      then have "nat (N - changes_st st) = 0" by simp
      then show ?thesis using \<open>is_mutation a\<close> by (simp add: budget_state_def mutations_def)
    next
      case False
      define b where "b = nat (N - changes_st st) - 1"
      from False have b: "nat (N - changes_st st) = Suc b" unfolding b_def by linarith
      then have "nat (N - (changes_st st + 1)) = b" by linarith
      then show ?thesis using \<open>is_mutation a\<close> b by (simp add: budget_state_def mutations_def)
    qed
  next
    case False
    then show ?thesis by (simp add: budget_state_def mutations_def)
  qed
  show ?case
    using step[of "cs @ ds" st] step[of cs st] Cons.IH[of "budget_state N [a] st"] by simp
qed

lemma schedule_budget: "is_mutation a \<Longrightarrow> schedule N a st = budget_state N [a] st"
proof (cases "changes_st st \<ge> N")
  case True
  assume "is_mutation a"
  moreover from True have "nat (N - changes_st st) = 0" by simp
  ultimately show ?thesis using True by (simp add: budget_state_def schedule_def mutations_def)
next
  case False
  assume m: "is_mutation a"
  define b where "b = nat (N - changes_st st) - 1"
  from False have b: "nat (N - changes_st st) = Suc b" unfolding b_def by linarith
  show ?thesis using False m b by (simp add: budget_state_def schedule_def mutations_def)
qed

lemma fold_schedule_Delete:
  "fold (\<lambda>e. schedule N (Delete e)) es st = budget_state N (map Delete es) st"
proof (induction es arbitrary: st)
  case Nil
  show ?case by (simp add: budget_state_Nil)
next
  case (Cons e es)
  have "budget_state N (map Delete (e # es)) st = budget_state N (map Delete es) (budget_state N [Delete e] st)"
    using budget_state_append[of N "[Delete e]" "map Delete es" st] by simp
  then show ?case using Cons.IH by (simp add: schedule_budget)
qed

lemma desired_step_candidates:
  "desired_step dp pol N mbk dbk unmanaged key st =
     (case desired_candidates dp pol mbk dbk unmanaged key of
        Inl err \<Rightarrow> Inl err
      | Inr cs \<Rightarrow> Inr (budget_state N cs st))"
proof (cases "map_of dbk key")
  case None
  then show ?thesis by (simp add: desired_step_def desired_candidates_def budget_state_Nil)
next
  case (Some desired)
  show ?thesis
  proof (cases "get_list mbk key")
    case Nil
    have skip: "st\<lparr>actions_st := actions_st st @ [SkipOverlap desired b]\<rparr>
        = budget_state N [SkipOverlap desired b] st" for b
      by (simp add: budget_state_def mutations_def)
    show ?thesis using Some Nil
      by (auto simp: desired_step_def desired_candidates_def skip schedule_budget
          split: sum.splits option.splits)
  next
    case (Cons primary duplicates)
    show ?thesis
    proof (cases "isEquivalent primary (event desired)")
      case True
      then show ?thesis using Some Cons
        by (simp add: desired_step_def desired_candidates_def fold_schedule_Delete)
    next
      case False
      have "budget_state N (Update primary desired # map Delete duplicates) st
            = budget_state N (map Delete duplicates) (budget_state N [Update primary desired] st)"
        using budget_state_append[of N "[Update primary desired]" "map Delete duplicates" st]
        by simp
      then show ?thesis using Some Cons False
        by (simp add: desired_step_def desired_candidates_def fold_schedule_Delete schedule_budget)
    qed
  qed
qed

lemma desired_loop_collect:
  "desired_loop dp pol N mbk dbk unmanaged keys st =
     (case collect (desired_candidates dp pol mbk dbk unmanaged) keys of
        Inl err \<Rightarrow> Inl err
      | Inr cs \<Rightarrow> Inr (budget_state N cs st))"
proof (induction keys arbitrary: st)
  case Nil
  show ?case by (simp add: budget_state_Nil)
next
  case (Cons key keys)
  show ?case
    by (simp add: desired_step_candidates Cons.IH budget_state_append split: sum.splits)
qed

lemma stale_step_budget:
  "stale_step N mbk dbk key st = budget_state N (stale_key mbk dbk key) st"
  by (simp add: stale_step_def stale_key_def fold_schedule_Delete budget_state_Nil)

lemma fold_stale_step:
  "fold (stale_step N mbk dbk) keys st = budget_state N (concat (map (stale_key mbk dbk) keys)) st"
proof (induction keys arbitrary: st)
  case Nil
  show ?case by (simp add: budget_state_Nil)
next
  case (Cons key keys)
  have "fold (stale_step N mbk dbk) (key # keys) st
        = budget_state N (concat (map (stale_key mbk dbk) keys)) (budget_state N (stale_key mbk dbk key) st)"
    by (simp only: fold_simps Cons.IH stale_step_budget)
  then show ?case by (simp add: budget_state_append)
qed

lemma splitManaged_filter:
  "splitManaged ts = (filter is_managed ts, filter (\<lambda>e. \<not> is_managed e) ts)"
proof -
  have "fold (\<lambda>ev (managed, unmanaged).
             if decodeSourceRef (description ev) \<noteq> None then (managed @ [ev], unmanaged)
             else (managed, unmanaged @ [ev])) ts (m, u)
        = (m @ filter is_managed ts, u @ filter (\<lambda>e. \<not> is_managed e) ts)" for m u
    by (induction ts arbitrary: m u) (simp_all add: is_managed_def)
  from this[of "[]" "[]"] show ?thesis by (simp add: splitManaged_def)
qed

lemma budget_state_init:
  "budget_state N cs \<lparr>actions_st = [], changes_st = 0, capped_st = False\<rparr> =
     \<lparr>actions_st = admit (nat N) cs, changes_st = int (min (nat N) (length (mutations cs))),
      capped_st = (nat N < length (mutations cs))\<rparr>"
  by (simp add: budget_state_def)

lemma planReconcile_candidates:
  "planReconcile lc dp D T pol N =
     (case candidates lc dp D T pol of
        Inl err \<Rightarrow> Inl err
      | Inr cs \<Rightarrow>
          Inr \<lparr>actions = admit (nat N) cs, desiredCount = length D,
               existingManagedCount = length (filter is_managed T),
               capped = (nat N < length (mutations cs))\<rparr>)"
proof -
  let ?mbk = "managedByKey lc (filter is_managed T)"
  let ?dbk = "desiredByKey D"
  let ?c = "collect (desired_candidates dp pol ?mbk ?dbk (filter (\<lambda>e. \<not> is_managed e) T))
              (sort (map fst ?dbk))"
  let ?init = "\<lparr>actions_st = [], changes_st = 0, capped_st = False\<rparr>"
  show ?thesis
  proof (cases ?c)
    case (Inl err)
    then show ?thesis
      by (simp add: planReconcile_def candidates_def splitManaged_filter desired_loop_collect)
  next
    case (Inr cs)
    have "fold (stale_step N ?mbk ?dbk) (sort (map fst ?mbk)) (budget_state N cs ?init)
          = budget_state N (cs @ stale_candidates ?mbk ?dbk) ?init"
      by (simp add: fold_stale_step stale_candidates_def budget_state_append)
    then show ?thesis using Inr
      by (simp add: planReconcile_def candidates_def splitManaged_filter desired_loop_collect
          budget_state_init Let_def)
  qed
qed

lemma mutations_admit: "mutations (admit b cs) = take b (mutations cs)"
  by (induction cs arbitrary: b) (auto simp: mutations_def split: nat.splits)

lemma skips_admit: "skips (admit b cs) = skips cs"
  by (induction cs arbitrary: b) (auto simp: skips_def split: nat.splits)

lemma set_admit: "set (admit b cs) \<subseteq> set cs"
  by (induction cs arbitrary: b) (auto split: nat.splits)

lemma admit_all: "length (mutations cs) \<le> b \<Longrightarrow> admit b cs = cs"
  by (induction cs arbitrary: b) (auto simp: mutations_def split: nat.splits)

lemma planReconcile_Inr:
  assumes "planReconcile lc dp D T pol N = Inr p"
  obtains cs where "candidates lc dp D T pol = Inr cs"
    and "actions p = admit (nat N) cs"
    and "desiredCount p = length D"
    and "existingManagedCount p = length (filter is_managed T)"
    and "capped p = (nat N < length (mutations cs))"
  using assms unfolding planReconcile_candidates
  by (cases "candidates lc dp D T pol") auto

lemma planReconcile_uncapped:
  assumes "planReconcile lc dp D T pol M = Inr q" "\<not> capped q"
  shows "candidates lc dp D T pol = Inr (actions q)"
proof -
  from assms(1) obtain cs where cs: "candidates lc dp D T pol = Inr cs"
    "actions q = admit (nat M) cs" "capped q = (nat M < length (mutations cs))"
    by (rule planReconcile_Inr)
  with assms(2) have "admit (nat M) cs = cs" by (simp add: admit_all)
  with cs show ?thesis by simp
qed

section \<open>Buckets, the desired index and the targets of a plan\<close>

lemma mset_insort_cmp: "mset (insort_cmp c x xs) = add_mset x (mset xs)"
  by (induction xs) simp_all

lemma mset_sort_cmp: "mset (sort_cmp c xs) = mset xs"
  by (induction xs) (simp_all add: sort_cmp_def mset_insort_cmp)

lemma set_sort_cmp: "set (sort_cmp c xs) = set xs"
  using mset_sort_cmp[of c xs] by (metis set_mset_mset)

lemma distinct_sort_cmp: "distinct (sort_cmp c xs) = distinct xs"
  using mset_sort_cmp[of c xs] by (metis distinct_count_atmost_1 set_mset_mset)

lemma get_list_Nil: "get_list [] k = []"
  by (simp add: get_list_def)

lemma get_list_update:
  "get_list (AList.update k v m) k' = (if k' = k then v else get_list m k')"
  by (simp add: get_list_def update_conv')

lemma get_list_add_managed:
  "get_list (add_managed ev m) k
   = get_list m k @ (if event_key ev = Some k then [ev] else [])"
  by (cases "decodeSourceRef (description ev)")
     (auto simp: add_managed_def event_key_def get_list_update)

lemma get_list_fold_add_managed:
  "get_list (fold add_managed evs m) k
   = get_list m k @ filter (\<lambda>ev. event_key ev = Some k) evs"
  by (induction evs arbitrary: m) (simp_all add: get_list_add_managed)

lemma get_list_managedByKey:
  "get_list (managedByKey lc (filter is_managed T)) k = bucket lc T k"
  by (simp add: managedByKey_def get_list_fold_add_managed bucket_def get_list_Nil)

lemma keys_add_managed:
  "fst ` set (add_managed ev m) = fst ` set m \<union> set_option (event_key ev)"
  by (cases "decodeSourceRef (description ev)")
     (auto simp: add_managed_def event_key_def dom_update)

lemma keys_fold_add_managed:
  "fst ` set (fold add_managed evs m) = fst ` set m \<union> {k. \<exists>ev \<in> set evs. event_key ev = Some k}"
  by (induction evs arbitrary: m) (auto simp: keys_add_managed)

lemma distinct_add_managed:
  "distinct (map fst m) \<Longrightarrow> distinct (map fst (add_managed ev m))"
  by (cases "decodeSourceRef (description ev)") (auto simp: add_managed_def distinct_update)

lemma distinct_fold_add_managed:
  "distinct (map fst m) \<Longrightarrow> distinct (map fst (fold add_managed evs m))"
  by (induction evs arbitrary: m) (simp_all add: distinct_add_managed)

lemma keys_managedByKey:
  "set (map fst (managedByKey lc (filter is_managed T)))
   = {k. \<exists>ev \<in> set T. event_key ev = Some k}"
  by (auto simp: managedByKey_def keys_fold_add_managed set_sort_cmp is_managed_def event_key_def)

lemma distinct_managedByKey: "distinct (map fst (managedByKey lc ms))"
  by (simp add: managedByKey_def distinct_fold_add_managed)

lemma set_bucket: "set (bucket lc T k) = {ev \<in> set T. event_key ev = Some k}"
  by (auto simp: bucket_def set_sort_cmp is_managed_def event_key_def)

lemma map_of_fold_update:
  "map_of (fold (\<lambda>d m. AList.update (f d) d m) ds m)
   = map_of (rev (map (\<lambda>d. (f d, d)) ds) @ m)"
proof (induction ds arbitrary: m)
  case Nil
  show ?case by simp
next
  case (Cons d ds)
  have "map_of (rev (map (\<lambda>d. (f d, d)) ds) @ AList.update (f d) d m)
        = map_of (rev (map (\<lambda>d. (f d, d)) ds) @ (f d, d) # m)"
    by (simp add: map_of_append update_conv')
  then show ?case by (simp add: Cons.IH)
qed

lemma map_of_desiredByKey:
  "map_of (desiredByKey D) = map_of (rev (map (\<lambda>d. (holdKey (source d), d)) D))"
  by (simp add: desiredByKey_def map_of_fold_update)

lemma keys_fold_update:
  "fst ` set (fold (\<lambda>d m. AList.update (f d) d m) ds m) = fst ` set m \<union> f ` set ds"
  by (induction ds arbitrary: m) (auto simp: dom_update)

lemma keys_desiredByKey: "set (map fst (desiredByKey D)) = (\<lambda>d. holdKey (source d)) ` set D"
  by (simp add: desiredByKey_def keys_fold_update)

lemma distinct_fold_update:
  "distinct (map fst m) \<Longrightarrow> distinct (map fst (fold (\<lambda>d m. AList.update (f d) d m) ds m))"
  by (induction ds arbitrary: m) (simp_all add: distinct_update)

lemma distinct_desiredByKey: "distinct (map fst (desiredByKey D))"
  by (simp add: desiredByKey_def distinct_fold_update)

lemma collect_concat:
  assumes "collect f keys = Inr xs"
  shows "xs = concat (map (\<lambda>k. case f k of Inr ys \<Rightarrow> ys | Inl err \<Rightarrow> []) keys)
     \<and> (\<forall>k \<in> set keys. \<exists>ys. f k = Inr ys)"
  using assms
  by (induction keys arbitrary: xs) (auto split: sum.splits)

lemma targets_simps:
  "targets [] = []"
  "targets (Create d # as) = targets as"
  "targets (SkipOverlap d b # as) = targets as"
  "targets (Update e d # as) = e # targets as"
  "targets (Delete e # as) = e # targets as"
  by (simp_all add: targets_def)

lemma targets_append: "targets (xs @ ys) = targets xs @ targets ys"
  by (induction xs) (simp_all add: targets_def split: option.splits)

lemma targets_concat: "targets (concat xss) = concat (map targets xss)"
  by (induction xss) (simp_all add: targets_append targets_simps)

lemma targets_map_Delete: "targets (map Delete es) = es"
  by (induction es) (simp_all add: targets_simps)

text \<open>The targets of one desired key: the primary, when it has drifted, and the duplicates.\<close>

lemma targets_desired_candidates:
  assumes "desired_candidates dp pol mbk dbk U k = Inr ys"
  shows "targets ys = []
     \<or> (\<exists>d primary duplicates. map_of dbk k = Some d \<and> get_list mbk k = primary # duplicates
          \<and> targets ys = (if isEquivalent primary (event d) then [] else [primary]) @ duplicates)"
proof (cases "map_of dbk k")
  case None
  with assms show ?thesis by (simp add: desired_candidates_def targets_simps)
next
  case (Some d)
  show ?thesis
  proof (cases "get_list mbk k")
    case Nil
    with assms Some show ?thesis
      by (auto simp: desired_candidates_def targets_simps split: sum.splits option.splits if_splits)
  next
    case (Cons primary duplicates)
    with assms Some show ?thesis
      by (auto simp: desired_candidates_def targets_simps targets_map_Delete)
  qed
qed

lemma targets_desired_subset:
  assumes "desired_candidates dp pol mbk dbk U k = Inr ys"
  shows "set (targets ys) \<subseteq> set (get_list mbk k)"
    and "distinct (get_list mbk k) \<Longrightarrow> distinct (targets ys)"
    and "targets ys \<noteq> [] \<Longrightarrow> map_of dbk k \<noteq> None"
  using targets_desired_candidates[OF assms]
  by (auto split: if_splits)

lemma targets_stale_key:
  "targets (stale_key mbk dbk k) = (if map_of dbk k \<noteq> None then [] else get_list mbk k)"
  by (simp add: stale_key_def targets_map_Delete targets_simps)

lemma distinct_concat_keyed:
  assumes "distinct ks"
    and "\<And>k. k \<in> set ks \<Longrightarrow> distinct (f k)"
    and "\<And>k x. k \<in> set ks \<Longrightarrow> x \<in> set (f k) \<Longrightarrow> key x = Some k"
  shows "distinct (concat (map f ks))"
  using assms
proof (induction ks)
  case Nil
  show ?case by simp
next
  case (Cons k ks)
  have "set (f k) \<inter> set (concat (map f ks)) = {}"
  proof (rule ccontr)
    assume "set (f k) \<inter> set (concat (map f ks)) \<noteq> {}"
    then obtain x k' where x: "x \<in> set (f k)" "k' \<in> set ks" "x \<in> set (f k')" by auto
    then have "key x = Some k" "key x = Some k'" using Cons.prems(3) by auto
    with x(2) Cons.prems(1) show False by auto
  qed
  moreover have "distinct (concat (map f ks))"
    using Cons by auto
  ultimately show ?case using Cons.prems(2) by auto
qed

text \<open>Shape of the candidate list: per desired key, then per stale key.\<close>

lemma candidates_shape:
  assumes "candidates lc dp D T pol = Inr cs"
  shows "\<exists>g.
    cs = concat (map g (sort (map fst (desiredByKey D))))
          @ concat (map (stale_key (managedByKey lc (filter is_managed T)) (desiredByKey D))
                     (sort (map fst (managedByKey lc (filter is_managed T)))))
    \<and> (\<forall>k \<in> set (map fst (desiredByKey D)).
          desired_candidates dp pol (managedByKey lc (filter is_managed T)) (desiredByKey D)
            (filter (\<lambda>e. \<not> is_managed e) T) k = Inr (g k))"
proof -
  let ?mbk = "managedByKey lc (filter is_managed T)"
  let ?dbk = "desiredByKey D"
  let ?f = "desired_candidates dp pol ?mbk ?dbk (filter (\<lambda>e. \<not> is_managed e) T)"
  let ?g = "\<lambda>k. case ?f k of Inr ys \<Rightarrow> ys | Inl err \<Rightarrow> []"
  from assms obtain xs where xs: "collect ?f (sort (map fst ?dbk)) = Inr xs"
    and cs: "cs = xs @ stale_candidates ?mbk ?dbk"
    by (auto simp: candidates_def splitManaged_filter Let_def split: sum.splits)
  from collect_concat[OF xs] have 1: "xs = concat (map ?g (sort (map fst ?dbk)))"
    and 2: "\<forall>k \<in> set (sort (map fst ?dbk)). \<exists>ys. ?f k = Inr ys" by blast+
  have "\<forall>k \<in> set (map fst ?dbk). ?f k = Inr (?g k)"
    using 2 by (auto split: sum.splits)
  with 1 cs show ?thesis
    by (intro exI[of _ ?g]) (simp add: stale_candidates_def)
qed

lemma candidates_targets:
  assumes "candidates lc dp D T pol = Inr cs"
  shows "set (targets cs) \<subseteq> {ev \<in> set T. is_managed ev}"
proof -
  let ?mbk = "managedByKey lc (filter is_managed T)"
  let ?dbk = "desiredByKey D"
  from candidates_shape[OF assms(1)] obtain g where
    cs: "cs = concat (map g (sort (map fst ?dbk)))
          @ concat (map (stale_key ?mbk ?dbk) (sort (map fst ?mbk)))"
    and g': "\<forall>k \<in> set (map fst ?dbk).
          desired_candidates dp pol ?mbk ?dbk (filter (\<lambda>e. \<not> is_managed e) T) k = Inr (g k)"
    by blast
  have g: "desired_candidates dp pol ?mbk ?dbk (filter (\<lambda>e. \<not> is_managed e) T) k = Inr (g k)"
    if "k \<in> set (map fst ?dbk)" for k using g' that by blast
  have b: "set (get_list ?mbk k) \<subseteq> {ev \<in> set T. is_managed ev}" for k
    by (auto simp: get_list_managedByKey set_bucket is_managed_def event_key_def)
  have "set (targets (g k)) \<subseteq> {ev \<in> set T. is_managed ev}" if "k \<in> set (map fst ?dbk)" for k
    using targets_desired_subset(1)[OF g[OF that]] b[of k] by blast
  moreover have "set (targets (stale_key ?mbk ?dbk k)) \<subseteq> {ev \<in> set T. is_managed ev}" for k
    using b[of k] by (simp add: targets_stale_key)
  ultimately show ?thesis
    unfolding cs targets_append targets_concat by auto
qed

lemma distinct_bucket: "distinct T \<Longrightarrow> distinct (bucket lc T k)"
  by (simp add: bucket_def distinct_sort_cmp)

lemma candidates_distinct:
  assumes "candidates lc dp D T pol = Inr cs" and "distinct T"
  shows "distinct (targets cs)"
proof -
  let ?mbk = "managedByKey lc (filter is_managed T)"
  let ?dbk = "desiredByKey D"
  from candidates_shape[OF assms(1)] obtain g where
    cs: "cs = concat (map g (sort (map fst ?dbk)))
          @ concat (map (stale_key ?mbk ?dbk) (sort (map fst ?mbk)))"
    and g': "\<forall>k \<in> set (map fst ?dbk).
          desired_candidates dp pol ?mbk ?dbk (filter (\<lambda>e. \<not> is_managed e) T) k = Inr (g k)"
    by blast
  have g: "desired_candidates dp pol ?mbk ?dbk (filter (\<lambda>e. \<not> is_managed e) T) k = Inr (g k)"
    if "k \<in> set (map fst ?dbk)" for k using g' that by blast
  have db: "distinct (get_list ?mbk k)" for k
    using assms(2) by (simp add: get_list_managedByKey distinct_bucket)
  have kb: "x \<in> set (get_list ?mbk k) \<Longrightarrow> event_key x = Some k" for x k
    by (simp add: get_list_managedByKey set_bucket)
  let ?t1 = "\<lambda>k. targets (g k)" and ?t2 = "\<lambda>k. targets (stale_key ?mbk ?dbk k)"
  have d1: "distinct (concat (map ?t1 (sort (map fst ?dbk))))"
  proof (rule distinct_concat_keyed[where key = event_key])
    show "distinct (sort (map fst ?dbk))" by (simp add: distinct_desiredByKey)
    show "distinct (?t1 k)" if "k \<in> set (sort (map fst ?dbk))" for k
      using targets_desired_subset(2)[OF g db] that by simp
    show "event_key x = Some k" if "k \<in> set (sort (map fst ?dbk))" "x \<in> set (?t1 k)" for k x
      using targets_desired_subset(1)[OF g, of k] that kb by auto
  qed
  have d2: "distinct (concat (map ?t2 (sort (map fst ?mbk))))"
  proof (rule distinct_concat_keyed[where key = event_key])
    show "distinct (sort (map fst ?mbk))" by (simp add: distinct_managedByKey)
    show "distinct (?t2 k)" for k using db[of k] by (simp add: targets_stale_key)
    show "event_key x = Some k" if "x \<in> set (?t2 k)" for k x
      using that kb[of x k] by (simp add: targets_stale_key split: if_splits)
  qed
  have disj: "set (concat (map ?t1 (sort (map fst ?dbk))))
      \<inter> set (concat (map ?t2 (sort (map fst ?mbk)))) = {}"
  proof (rule ccontr)
    assume "\<not> ?thesis"
    then obtain x k1 k2 where x: "k1 \<in> set (map fst ?dbk)" "x \<in> set (?t1 k1)" "x \<in> set (?t2 k2)"
      by auto
    from x(2) have "?t1 k1 \<noteq> []" by auto
    with x(1,2) have "event_key x = Some k1" "map_of ?dbk k1 \<noteq> None"
      using targets_desired_subset(1,3)[OF g[OF x(1)]] kb by auto
    moreover from x(3) have "event_key x = Some k2" "map_of ?dbk k2 = None"
      using kb[of x k2] by (auto simp: targets_stale_key split: if_splits)
    ultimately show False by simp
  qed
  show ?thesis
    unfolding cs targets_append targets_concat map_map comp_def
    using d1 d2 disj by (simp add: comp_def)
qed

lemma targets_admit_subset: "set (targets (admit b cs)) \<subseteq> set (targets cs)"
  using set_admit[of b cs] by (auto simp: targets_def List.map_filter_def)

lemma distinct_targets_admit: "distinct (targets cs) \<Longrightarrow> distinct (targets (admit b cs))"
proof (induction cs arbitrary: b)
  case Nil
  show ?case by (simp add: targets_simps)
next
  case (Cons a cs)
  show ?case
  proof (cases a)
    case (Create d)
    with Cons show ?thesis by (auto simp: targets_simps split: nat.splits)
  next
    case (Update e d)
    with Cons targets_admit_subset[of _ cs] show ?thesis
      by (auto simp: targets_simps split: nat.splits)
  next
    case (Delete e)
    with Cons targets_admit_subset[of _ cs] show ?thesis
      by (auto simp: targets_simps split: nat.splits)
  next
    case (SkipOverlap d b')
    with Cons show ?thesis by (auto simp: targets_simps split: nat.splits)
  qed
qed

section \<open>Where the planner can raise\<close>












lemma map_of_desiredByKey_mem:
  "map_of (desiredByKey D) k = Some d \<Longrightarrow> d \<in> set D \<and> holdKey (source d) = k"
  unfolding map_of_desiredByKey by (auto dest!: map_of_SomeD)



section \<open>The sort, and plans under reordered inputs\<close>

lemma consistent_cmp_total: "consistent_cmp c \<Longrightarrow> c a b \<le> 0 \<or> c b a \<le> 0"
  unfolding consistent_cmp_def by (metis not_le order_less_imp_le)

lemma consistent_cmp_trans: "consistent_cmp c \<Longrightarrow> c a b \<le> 0 \<Longrightarrow> c b d \<le> 0 \<Longrightarrow> c a d \<le> 0"
  unfolding consistent_cmp_def by blast

lemma consistent_by_id: "consistent_cmp lc \<Longrightarrow> consistent_cmp (by_id lc)"
  unfolding consistent_cmp_def by_id_def by blast

lemma set_insort_cmp: "set (insort_cmp c x xs) = insert x (set xs)"
  by (induction xs) auto

lemma sorted_insort_cmp:
  assumes "consistent_cmp c"
  shows "sorted_wrt (\<lambda>a b. c a b \<le> 0) xs \<Longrightarrow> sorted_wrt (\<lambda>a b. c a b \<le> 0) (insort_cmp c x xs)"
proof (induction xs)
  case Nil
  show ?case by simp
next
  case (Cons y ys)
  show ?case
  proof (cases "c x y \<le> 0")
    case True
    with Cons.prems consistent_cmp_trans[OF assms, of x y] show ?thesis by auto
  next
    case False
    then have "c y x \<le> 0" using consistent_cmp_total[OF assms, of x y] by simp
    with False Cons show ?thesis by (auto simp: set_insort_cmp)
  qed
qed

lemma sorted_sort_cmp:
  "consistent_cmp c \<Longrightarrow> sorted_wrt (\<lambda>a b. c a b \<le> 0) (sort_cmp c xs)"
  by (induction xs) (simp_all add: sort_cmp_def sorted_insort_cmp)

lemma sorted_wrt_filter': "sorted_wrt R xs \<Longrightarrow> sorted_wrt R (filter P xs)"
  by (induction xs) auto

lemma sorted_bucket:
  "consistent_cmp lc \<Longrightarrow> sorted_wrt (\<lambda>a b. by_id lc a b \<le> 0) (bucket lc T k)"
  unfolding bucket_def by (intro sorted_wrt_filter' sorted_sort_cmp consistent_by_id)

lemma mset_bucket: "mset (bucket lc T k) = mset (filter (\<lambda>ev. event_key ev = Some k) T)"
proof -
  have "mset (bucket lc T k)
        = filter_mset (\<lambda>ev. event_key ev = Some k) (filter_mset is_managed (mset T))"
    by (simp add: bucket_def mset_sort_cmp)
  also have "\<dots> = filter_mset (\<lambda>ev. is_managed ev \<and> event_key ev = Some k) (mset T)"
    by (simp add: filter_filter_mset conj_commute)
  also have "\<dots> = filter_mset (\<lambda>ev. event_key ev = Some k) (mset T)"
    by (intro filter_mset_cong refl) (auto simp: is_managed_def event_key_def)
  finally show ?thesis by simp
qed

lemma sorted_wrt_unique:
  assumes "\<And>a b. a \<in> set xs \<Longrightarrow> b \<in> set xs \<Longrightarrow> R a b \<Longrightarrow> R b a \<Longrightarrow> a = b"
  shows "sorted_wrt R xs \<Longrightarrow> sorted_wrt R ys \<Longrightarrow> mset xs = mset ys \<Longrightarrow> xs = ys"
  using assms
proof (induction xs arbitrary: ys)
  case Nil
  then show ?case by simp
next
  case (Cons x xs)
  from Cons.prems(3) obtain y ys' where ys: "ys = y # ys'"
    by (cases ys) auto
  have sets: "set (x # xs) = set ys" using Cons.prems(3) by (metis set_mset_mset)
  have "x = y"
  proof (rule ccontr)
    assume ne: "x \<noteq> y"
    with sets ys have "x \<in> set ys'" "y \<in> set xs" by auto
    then have "R y x" "R x y" using Cons.prems(1,2) ys by auto
    moreover have "y \<in> set (x # xs)" using \<open>y \<in> set xs\<close> by simp
    ultimately show False using Cons.prems(4)[of x y] ne by simp
  qed
  with Cons.prems(3) ys have m: "mset xs = mset ys'" by simp
  have "xs = ys'"
  proof (rule Cons.IH)
    show "sorted_wrt R xs" using Cons.prems(1) by simp
    show "sorted_wrt R ys'" using Cons.prems(2) ys by simp
    show "mset xs = mset ys'" by (rule m)
    show "\<And>a b. a \<in> set xs \<Longrightarrow> b \<in> set xs \<Longrightarrow> R a b \<Longrightarrow> R b a \<Longrightarrow> a = b"
      using Cons.prems(4) by simp
  qed
  with \<open>x = y\<close> ys show ?case by simp
qed

lemma bucket_pair:
  assumes "consistent_cmp lc"
    and "mset (filter (\<lambda>ev. event_key ev = Some k) T) = {#a, b#}"
    and "lc (id_e a) (id_e b) < 0"
  shows "bucket lc T k = [a, b]"
proof -
  have m: "mset (bucket lc T k) = {#a, b#}" using assms(2) by (simp add: mset_bucket)
  then have "length (bucket lc T k) = 2" by (metis size_mset size_add_mset size_empty numeral_2_eq_2)
  then obtain x y where xy: "bucket lc T k = [x, y]"
    by (metis (no_types, opaque_lifting) length_0_conv length_Suc_conv numeral_2_eq_2)
  with m have "{#x, y#} = {#a, b#}" by simp
  then have "(x = a \<and> y = b) \<or> (x = b \<and> y = a)"
    by (auto simp: add_eq_conv_ex)
  moreover have "by_id lc x y \<le> 0" using sorted_bucket[OF assms(1), of T k] xy by simp
  moreover have "\<not> by_id lc b a \<le> 0"
    using assms(1,3) unfolding consistent_cmp_def by_id_def by (metis not_le)
  ultimately show ?thesis using xy by auto
qed

lemma filter_concat_single:
  assumes "distinct ks" and "k \<in> set ks"
    and "\<And>k'. k' \<in> set ks \<Longrightarrow> k' \<noteq> k \<Longrightarrow> \<forall>x \<in> set (f k'). \<not> Q x"
  shows "filter Q (concat (map f ks)) = filter Q (f k)"
  using assms
proof (induction ks)
  case Nil
  then show ?case by simp
next
  case (Cons j ks)
  have none: "filter Q (concat (map f js)) = []"
    if "\<And>k'. k' \<in> set js \<Longrightarrow> \<forall>x \<in> set (f k'). \<not> Q x" for js
    using that by (induction js) (auto simp: filter_empty_conv)
  show ?case
  proof (cases "j = k")
    case True
    then have "k \<notin> set ks" using Cons.prems(1) by simp
    then have "filter Q (concat (map f ks)) = []"
      using Cons.prems(3) by (intro none) auto
    with True show ?thesis by simp
  next
    case False
    then have "filter Q (f j) = []" using Cons.prems(3)[of j] by (simp add: filter_empty_conv)
    moreover have "filter Q (concat (map f ks)) = filter Q (f k)"
      using Cons False by auto
    ultimately show ?thesis by simp
  qed
qed

lemma filter_concat_none:
  assumes "\<And>k'. k' \<in> set ks \<Longrightarrow> \<forall>x \<in> set (f k'). \<not> Q x"
  shows "filter Q (concat (map f ks)) = []"
  using assms by (induction ks) (auto simp: filter_empty_conv)

lemma not_touches_key:
  assumes "\<And>ev. ev \<in> set (targets as) \<Longrightarrow> event_key ev \<noteq> Some k"
  shows "\<forall>x \<in> set as. \<not> touches_key k x"
proof
  fix x assume x: "x \<in> set as"
  show "\<not> touches_key k x"
  proof
    assume "touches_key k x"
    then obtain ev where "target_of x = Some ev" "event_key ev = Some k"
      by (auto simp: touches_key_def split: option.splits)
    moreover from this x have "ev \<in> set (targets as)"
      by (auto simp: targets_def List.map_filter_def intro!: image_eqI[of _ _ x])
    ultimately show False using assms by blast
  qed
qed

lemma consistent_ex_lc: "consistent_cmp ex_lc"
  unfolding consistent_cmp_def ex_lc_def by (auto simp: not_less)

lemma told_apart_ex_lc: "ids_told_apart ex_lc T"
  unfolding ids_told_apart_def ex_lc_def by (auto split: if_splits)

lemma told_apart_filter: "ids_told_apart lc T \<Longrightarrow> ids_told_apart lc (filter P T)"
  unfolding ids_told_apart_def by auto

lemma by_id_antisym:
  assumes "consistent_cmp lc" "ids_told_apart lc xs" "inj_on id_e (set xs)"
    and "a \<in> set xs" "b \<in> set xs"
    and "by_id lc a b \<le> 0" "by_id lc b a \<le> 0"
  shows "a = b"
proof -
  have "lc (id_e a) (id_e b) = 0"
    using assms(1,6,7) unfolding consistent_cmp_def by_id_def
    by (metis not_le order_le_less)
  then have "id_e a = id_e b" using assms(2,4,5) by (simp add: ids_told_apart_def)
  with assms(3,4,5) show ?thesis by (simp add: inj_on_def)
qed

lemma sort_cmp_perm:
  assumes "consistent_cmp lc" "ids_told_apart lc xs" "distinct (map id_e xs)" "mset ys = mset xs"
  shows "sort_cmp (by_id lc) ys = sort_cmp (by_id lc) xs"
proof (rule sorted_wrt_unique[where R = "\<lambda>a b. by_id lc a b \<le> 0"])
  have inj: "inj_on id_e (set xs)" using assms(3) by (simp add: distinct_map)
  show "a = b" if "a \<in> set (sort_cmp (by_id lc) ys)" "b \<in> set (sort_cmp (by_id lc) ys)"
    "by_id lc a b \<le> 0" "by_id lc b a \<le> 0" for a b
  proof -
    have "set ys = set xs" using assms(4) by (metis set_mset_mset)
    with that(1,2) have "a \<in> set xs" "b \<in> set xs" by (simp_all add: set_sort_cmp)
    then show ?thesis using by_id_antisym[OF assms(1,2) inj _ _ that(3,4)] by blast
  qed
  show "sorted_wrt (\<lambda>a b. by_id lc a b \<le> 0) (sort_cmp (by_id lc) ys)"
    by (intro sorted_sort_cmp consistent_by_id assms(1))
  show "sorted_wrt (\<lambda>a b. by_id lc a b \<le> 0) (sort_cmp (by_id lc) xs)"
    by (intro sorted_sort_cmp consistent_by_id assms(1))
  show "mset (sort_cmp (by_id lc) ys) = mset (sort_cmp (by_id lc) xs)"
    by (simp add: mset_sort_cmp assms(4))
qed

lemma distinct_map_filter': "distinct (map f xs) \<Longrightarrow> distinct (map f (filter P xs))"
  by (induction xs) auto

lemma bucket_perm:
  assumes "consistent_cmp lc" "ids_told_apart lc T" "distinct (map id_e T)" "mset T' = mset T"
  shows "bucket lc T' k = bucket lc T k"
proof -
  have "mset (filter is_managed T') = mset (filter is_managed T)"
    using assms(4) by simp
  then have "sort_cmp (by_id lc) (filter is_managed T') = sort_cmp (by_id lc) (filter is_managed T)"
    by (intro sort_cmp_perm assms(1) told_apart_filter assms(2) distinct_map_filter' assms(3))
  then show ?thesis by (simp add: bucket_def)
qed

lemma sort_set_unique:
  fixes xs ys :: "jsstring list"
  assumes "distinct xs" "distinct ys" "set xs = set ys"
  shows "sort xs = sort ys"
  by (rule sorted_distinct_set_unique) (simp_all add: assms)

lemma managed_keys_perm:
  assumes "mset T' = mset T"
  shows "sort (map fst (managedByKey lc (filter is_managed T')))
       = sort (map fst (managedByKey lc (filter is_managed T)))"
proof (rule sort_set_unique)
  have "set T' = set T" using assms by (metis set_mset_mset)
  then show "set (map fst (managedByKey lc (filter is_managed T')))
      = set (map fst (managedByKey lc (filter is_managed T)))"
    by (simp only: keys_managedByKey)
qed (simp_all add: distinct_managedByKey)

lemma desired_keys_perm:
  assumes "mset D' = mset D"
  shows "sort (map fst (desiredByKey D')) = sort (map fst (desiredByKey D))"
proof (rule sort_set_unique)
  have "set D' = set D" using assms by (metis set_mset_mset)
  then show "set (map fst (desiredByKey D')) = set (map fst (desiredByKey D))"
    by (simp only: keys_desiredByKey)
qed (simp_all add: distinct_desiredByKey)

lemma desired_index_perm:
  assumes "distinct (map (\<lambda>d. holdKey (source d)) D)" "mset D' = mset D"
  shows "map_of (desiredByKey D') = map_of (desiredByKey D)"
proof -
  let ?f = "\<lambda>d. (holdKey (source d), d)"
  have "mset (map (\<lambda>d. holdKey (source d)) D') = mset (map (\<lambda>d. holdKey (source d)) D)"
    using assms(2) by simp
  then have d': "distinct (map (\<lambda>d. holdKey (source d)) D')"
    using assms(1) by (metis distinct_count_atmost_1 set_mset_mset)
  have "set D' = set D" using assms(2) by (metis set_mset_mset)
  then have "set (rev (map ?f D')) = set (rev (map ?f D))" by simp
  moreover have "distinct (map fst (rev (map ?f D')))" "distinct (map fst (rev (map ?f D)))"
    using d' assms(1) by (simp_all add: rev_map[symmetric] comp_def)
  ultimately show ?thesis
    unfolding map_of_desiredByKey by (simp only: map_of_inject_set)
qed

lemma desired_candidates_cong:
  "get_list mbk' k = get_list mbk k \<Longrightarrow> map_of dbk' k = map_of dbk k \<Longrightarrow>
   desired_candidates dp pol mbk' dbk' U k = desired_candidates dp pol mbk dbk U k"
  by (simp add: desired_candidates_def split: option.splits)

lemma stale_key_cong:
  "get_list mbk' k = get_list mbk k \<Longrightarrow> map_of dbk' k = map_of dbk k \<Longrightarrow>
   stale_key mbk' dbk' k = stale_key mbk dbk k"
  by (simp add: stale_key_def)

lemma collect_cong:
  "(\<And>k. k \<in> set keys \<Longrightarrow> f k = g k) \<Longrightarrow> collect f keys = collect g keys"
  by (induction keys) (simp_all split: sum.splits)

lemma candidates_perm:
  assumes "consistent_cmp lc" "ids_told_apart lc T"
    and "distinct (map id_e T)" "distinct (map (\<lambda>d. holdKey (source d)) D)"
    and "mset T' = mset T" "mset D' = mset D"
  shows "candidates lc dp D' T' pol =
     (case collect (desired_candidates dp pol (managedByKey lc (filter is_managed T))
                      (desiredByKey D) (filter (\<lambda>e. \<not> is_managed e) T'))
             (sort (map fst (desiredByKey D))) of
        Inl err \<Rightarrow> Inl err
      | Inr cs \<Rightarrow> Inr (cs @ stale_candidates (managedByKey lc (filter is_managed T)) (desiredByKey D)))"
proof -
  let ?mbk = "managedByKey lc (filter is_managed T)" and ?mbk' = "managedByKey lc (filter is_managed T')"
  let ?dbk = "desiredByKey D" and ?dbk' = "desiredByKey D'"
  let ?U' = "filter (\<lambda>e. \<not> is_managed e) T'"
  have gl: "get_list ?mbk' k = get_list ?mbk k" for k
    by (simp add: get_list_managedByKey bucket_perm[OF assms(1,2,3,5)])
  have mo: "map_of ?dbk' = map_of ?dbk" by (rule desired_index_perm[OF assms(4,6)])
  have dk: "sort (map fst ?dbk') = sort (map fst ?dbk)" by (rule desired_keys_perm[OF assms(6)])
  have mk: "sort (map fst ?mbk') = sort (map fst ?mbk)" by (rule managed_keys_perm[OF assms(5)])
  have 1: "collect (desired_candidates dp pol ?mbk' ?dbk' ?U') (sort (map fst ?dbk))
         = collect (desired_candidates dp pol ?mbk ?dbk ?U') (sort (map fst ?dbk))"
    by (rule collect_cong, rule desired_candidates_cong) (simp_all add: gl mo)
  have "stale_key ?mbk' ?dbk' = stale_key ?mbk ?dbk"
    by (rule ext, rule stale_key_cong) (simp_all add: gl mo)
  then have 2: "stale_candidates ?mbk' ?dbk' = stale_candidates ?mbk ?dbk"
    by (simp add: stale_candidates_def mk)
  show ?thesis
    unfolding candidates_def splitManaged_filter Let_def prod.case dk 1 2 by (rule refl)
qed

lemma candidates_unfold:
  "candidates lc dp D T pol =
     (case collect (desired_candidates dp pol (managedByKey lc (filter is_managed T))
                      (desiredByKey D) (filter (\<lambda>e. \<not> is_managed e) T))
             (sort (map fst (desiredByKey D))) of
        Inl err \<Rightarrow> Inl err
      | Inr cs \<Rightarrow> Inr (cs @ stale_candidates (managedByKey lc (filter is_managed T)) (desiredByKey D)))"
  unfolding candidates_def splitManaged_filter Let_def prod.case by (rule refl)

lemma desired_candidates_Allow:
  "desired_candidates dp Allow mbk dbk U' k = desired_candidates dp Allow mbk dbk U k"
  by (simp add: desired_candidates_def split: option.splits list.splits)

lemma find_blocker_None:
  "find_blocker dp de U = Inr None \<Longrightarrow> \<forall>c \<in> set U. isOverlap dp c de = Inr False"
  by (induction U) (auto split: sum.splits bool.splits)

lemma find_blocker_Some:
  "find_blocker dp de U = Inr (Some c) \<Longrightarrow> c \<in> set U \<and> isOverlap dp c de = Inr True"
  by (induction U) (auto split: sum.splits bool.splits)

lemma find_blocker_same_outcome:
  assumes "set U' = set U" "find_blocker dp de U = Inr r" "find_blocker dp de U' = Inr r'"
  shows "(r = None) = (r' = None)"
proof (cases r)
  case None
  show ?thesis
  proof (cases r')
    case (Some c)
    from find_blocker_Some[OF assms(3)[unfolded Some]] find_blocker_None[OF assms(2)[unfolded None]]
    show ?thesis using assms(1) by auto
  qed (simp add: None)
next
  case (Some c)
  show ?thesis
  proof (cases r')
    case None
    from find_blocker_Some[OF assms(2)[unfolded Some]] find_blocker_None[OF assms(3)[unfolded None]]
    show ?thesis using assms(1) by auto
  qed (simp add: Some)
qed

lemma desired_candidates_erase:
  assumes "set U' = set U"
    and "desired_candidates dp pol mbk dbk U k = Inr ys"
    and "desired_candidates dp pol mbk dbk U' k = Inr ys'"
  shows "map erase_blocker ys' = map erase_blocker ys"
proof (cases "map_of dbk k")
  case None
  with assms show ?thesis by (simp add: desired_candidates_def)
next
  case (Some d)
  show ?thesis
  proof (cases "get_list mbk k")
    case (Cons primary duplicates)
    with assms Some show ?thesis by (simp add: desired_candidates_def)
  next
    case Nil
    show ?thesis
    proof (cases pol)
      case Allow
      with assms Some Nil show ?thesis by (simp add: desired_candidates_def)
    next
      case Skip
      from assms(2) Some Nil Skip obtain r where r: "find_blocker dp (event d) U = Inr r"
        by (auto simp: desired_candidates_def split: sum.splits)
      from assms(3) Some Nil Skip obtain r' where r': "find_blocker dp (event d) U' = Inr r'"
        by (auto simp: desired_candidates_def split: sum.splits)
      from find_blocker_same_outcome[OF assms(1) r r'] assms(2,3) Some Nil Skip r r'
      show ?thesis
        by (cases r; cases r') (auto simp: desired_candidates_def)
    qed
  qed
qed

lemma collect_erase:
  assumes "\<And>k ys ys'. k \<in> set keys \<Longrightarrow> f k = Inr ys \<Longrightarrow> f' k = Inr ys' \<Longrightarrow> map e ys' = map e ys"
  shows "collect f keys = Inr cs \<Longrightarrow> collect f' keys = Inr cs' \<Longrightarrow> map e cs' = map e cs"
  using assms
proof (induction keys arbitrary: cs cs')
  case Nil
  then show ?case by simp
next
  case (Cons k keys)
  from Cons.prems(1) obtain ys zs where 1: "f k = Inr ys" "collect f keys = Inr zs" "cs = ys @ zs"
    by (auto split: sum.splits)
  from Cons.prems(2) obtain ys' zs' where 2: "f' k = Inr ys'" "collect f' keys = Inr zs'" "cs' = ys' @ zs'"
    by (auto split: sum.splits)
  have "map e ys' = map e ys" using Cons.prems(3)[of k ys ys'] 1(1) 2(1) by simp
  moreover have "map e zs' = map e zs"
  proof (rule Cons.IH[OF 1(2) 2(2)])
    fix j ws ws' assume "j \<in> set keys" "f j = Inr ws" "f' j = Inr ws'"
    then show "map e ws' = map e ws" using Cons.prems(3)[of j ws ws'] by simp
  qed
  ultimately show ?case using 1(3) 2(3) by simp
qed

lemma is_mutation_erase: "is_mutation (erase_blocker a) = is_mutation a"
  by (cases a) simp_all

lemma admit_erase: "admit b (map erase_blocker cs) = map erase_blocker (admit b cs)"
  by (induction cs arbitrary: b) (auto simp: is_mutation_erase split: nat.splits)

lemma length_mutations_erase: "length (mutations (map erase_blocker cs)) = length (mutations cs)"
  by (induction cs) (simp_all add: mutations_def is_mutation_erase)

section \<open>Applying a plan\<close>

lemma filter_replace_first_in:
  "P x \<Longrightarrow> P y \<Longrightarrow> filter P (replace_first x y zs) = replace_first x y (filter P zs)"
  by (induction zs) auto

lemma filter_replace_first_out:
  "\<not> P x \<Longrightarrow> \<not> P y \<Longrightarrow> filter P (replace_first x y zs) = filter P zs"
  by (induction zs) auto

lemma filter_remove1_out: "\<not> P x \<Longrightarrow> filter P (remove1 x zs) = filter P zs"
  by (induction zs) auto

lemma filter_applyAction:
  assumes "well_keyed a"
  shows "filter (\<lambda>ev. event_key ev = Some k) (applyAction a T)
       = (if action_key a = Some k then applyAction a (filter (\<lambda>ev. event_key ev = Some k) T)
          else filter (\<lambda>ev. event_key ev = Some k) T)"
proof (cases a)
  case (Create d)
  then show ?thesis by simp
next
  case (Update e d)
  with assms show ?thesis
    by (simp add: filter_replace_first_in filter_replace_first_out)
next
  case (Delete e)
  then show ?thesis by (simp add: filter_remove1 filter_remove1_out)
next
  case (SkipOverlap d b)
  then show ?thesis by simp
qed

lemma filter_applyPlan:
  assumes "\<forall>a \<in> set as. well_keyed a"
  shows "filter (\<lambda>ev. event_key ev = Some k) (applyPlan as T)
       = applyPlan (filter (\<lambda>a. action_key a = Some k) as) (filter (\<lambda>ev. event_key ev = Some k) T)"
  using assms
proof (induction as arbitrary: T)
  case Nil
  show ?case by (simp add: applyPlan_def)
next
  case (Cons a as)
  have "filter (\<lambda>ev. event_key ev = Some k) (applyPlan (a # as) T)
        = applyPlan (filter (\<lambda>a. action_key a = Some k) as)
            (filter (\<lambda>ev. event_key ev = Some k) (applyAction a T))"
    using Cons.IH[of "applyAction a T"] Cons.prems by (simp add: applyPlan_def)
  also have "\<dots> = applyPlan (filter (\<lambda>a. action_key a = Some k) (a # as))
            (filter (\<lambda>ev. event_key ev = Some k) T)"
    using Cons.prems by (simp add: filter_applyAction applyPlan_def)
  finally show ?case .
qed

lemma mset_replace_first:
  "x \<in> set zs \<Longrightarrow> mset (replace_first x y zs) = add_mset y (mset zs - {#x#})"
  by (induction zs) auto

lemma applyPlan_Deletes:
  "mset (applyPlan (map Delete es) L) = mset L - mset es"
proof (induction es arbitrary: L)
  case Nil
  show ?case by (simp add: applyPlan_def)
next
  case (Cons e es)
  have "mset (applyPlan (map Delete (e # es)) L) = mset (remove1 e L) - mset es"
    using Cons.IH[of "remove1 e L"] by (simp add: applyPlan_def)
  then show ?case by (simp add: diff_diff_add_mset)
qed

text \<open>What a bucket becomes: the actions of one desired key leave one event, equivalent to
  the desired event; the deletions of a stale key leave nothing.\<close>

lemma apply_bucket_actions:
  assumes "mset L = mset (primary # duplicates)"
  shows "\<exists>x. applyPlan ((if \<not> isEquivalent primary (event d) then [Update primary d] else [])
             @ map Delete duplicates) L = [x] \<and> isEquivalent x (event d)"
proof (cases "isEquivalent primary (event d)")
  case True
  have "mset (applyPlan (map Delete duplicates) L) = {#primary#}"
    using assms by (simp add: applyPlan_Deletes)
  then have "applyPlan (map Delete duplicates) L = [primary]"
    by (metis mset_single_iff_right mset.simps(1) mset.simps(2))
  with True show ?thesis by simp
next
  case False
  have "primary \<in> set L" using assms by (metis list.set_intros(1) set_mset_mset)
  then have "mset (replace_first primary (event d) L) = add_mset (event d) (mset duplicates)"
    using assms by (simp add: mset_replace_first)
  then have "mset (applyPlan (map Delete duplicates) (replace_first primary (event d) L))
             = {#event d#}"
    by (simp add: applyPlan_Deletes)
  then have "applyPlan (map Delete duplicates) (replace_first primary (event d) L) = [event d]"
    by (metis mset_single_iff_right mset.simps(1) mset.simps(2))
  moreover have "isEquivalent (event d) (event d)" by (simp add: isEquivalent_def)
  ultimately show ?thesis using False by (simp add: applyPlan_def)
qed

lemma apply_stale_actions:
  assumes "mset L = mset es"
  shows "applyPlan (map Delete es) L = []"
proof -
  have "mset (applyPlan (map Delete es) L) = {#}" using assms by (simp add: applyPlan_Deletes)
  then show ?thesis by simp
qed

lemma desired_candidates_keys:
  assumes "desired_candidates dp pol mbk dbk U j = Inr ys"
    and "map_of dbk j = Some d" and "event_key (event d) = Some j"
    and "\<And>x. x \<in> set (get_list mbk j) \<Longrightarrow> event_key x = Some j"
    and "a \<in> set ys" and "is_mutation a"
  shows "action_key a = Some j \<and> well_keyed a"
proof (cases "get_list mbk j")
  case Nil
  with assms show ?thesis
    by (auto simp: desired_candidates_def split: sum.splits option.splits if_splits)
next
  case (Cons primary duplicates)
  with assms(4) have "event_key primary = Some j" "\<And>x. x \<in> set duplicates \<Longrightarrow> event_key x = Some j"
    by auto
  with assms(1,2,3,5) Cons show ?thesis
    by (auto simp: desired_candidates_def split: if_splits)
qed

lemma desired_candidates_empty_bucket:
  assumes "desired_candidates dp pol mbk dbk U k = Inr ys"
    and "map_of dbk k = Some d" and "get_list mbk k = []"
  shows "ys = [Create d] \<or> (\<exists>b. ys = [SkipOverlap d b])"
  using assms
  by (auto simp: desired_candidates_def split: sum.splits option.splits if_splits)

lemma stale_key_keys:
  assumes "\<And>x. x \<in> set (get_list mbk j) \<Longrightarrow> event_key x = Some j"
    and "a \<in> set (stale_key mbk dbk j)"
  shows "action_key a = Some j \<and> well_keyed a \<and> map_of dbk j = None"
  using assms by (auto simp: stale_key_def split: if_splits)

lemma collect_all_Nil: "(\<And>k. k \<in> set keys \<Longrightarrow> f k = Inr []) \<Longrightarrow> collect f keys = Inr []"
  by (induction keys) simp_all

lemma concat_all_Nil: "(\<And>k. k \<in> set keys \<Longrightarrow> f k = []) \<Longrightarrow> concat (map f keys) = []"
  by (induction keys) simp_all

lemma filter_all: "(\<And>x. x \<in> set xs \<Longrightarrow> P x) \<Longrightarrow> filter P xs = xs"
  by (induction xs) simp_all

lemma mset_singleton_list: "mset xs = {#x#} \<Longrightarrow> xs = [x]"
  by (metis mset_single_iff_right mset.simps(1) mset.simps(2))

text \<open>The buckets after the plan has been applied.\<close>

lemma buckets_after_plan:
  assumes plan: "planReconcile lc dp D T pol N = Inr p"
    and uncapped: "\<not> capped p"
    and noskip: "skips (actions p) = []"
    and tags: "\<forall>d \<in> set D. tagged d"
  shows "case map_of (desiredByKey D) k of
           Some d \<Rightarrow> \<exists>x. filter (\<lambda>ev. event_key ev = Some k) (applyPlan (actions p) T) = [x]
                         \<and> isEquivalent x (event d)
         | None \<Rightarrow> filter (\<lambda>ev. event_key ev = Some k) (applyPlan (actions p) T) = []"
proof -
  let ?mbk = "managedByKey lc (filter is_managed T)"
  let ?dbk = "desiredByKey D"
  let ?U = "filter (\<lambda>e. \<not> is_managed e) T"
  let ?Q = "\<lambda>a. action_key a = Some k"
  let ?P = "\<lambda>ev. event_key ev = Some k"
  let ?dkeys = "sort (map fst ?dbk)" and ?mkeys = "sort (map fst ?mbk)"
  have cs: "candidates lc dp D T pol = Inr (actions p)"
    using planReconcile_uncapped[OF plan uncapped] .
  from candidates_shape[OF cs] obtain g where
    shape: "actions p = concat (map g ?dkeys) @ concat (map (stale_key ?mbk ?dbk) ?mkeys)"
    and g': "\<forall>k \<in> set (map fst ?dbk). desired_candidates dp pol ?mbk ?dbk ?U k = Inr (g k)"
    by blast
  have g: "desired_candidates dp pol ?mbk ?dbk ?U j = Inr (g j)" if "j \<in> set ?dkeys" for j
    using g' that by auto
  have kb: "x \<in> set (get_list ?mbk j) \<Longrightarrow> event_key x = Some j" for x j
    by (simp add: get_list_managedByKey set_bucket)
  have mut: "is_mutation a" if "a \<in> set (actions p)" for a
  proof (rule ccontr)
    assume "\<not> is_mutation a"
    with that have "a \<in> set (skips (actions p))" by (simp add: skips_def)
    with noskip show False by simp
  qed
  have dk: "\<exists>d. map_of ?dbk j = Some d \<and> event_key (event d) = Some j" if "j \<in> set ?dkeys" for j
  proof -
    from that obtain d where d: "map_of ?dbk j = Some d"
      by (metis map_of_eq_None_iff not_Some_eq set_map set_sort)
    from map_of_desiredByKey_mem[OF d] tags have "event_key (event d) = Some j"
      by (auto simp: tagged_def)
    with d show ?thesis by blast
  qed
  have gkeys: "action_key a = Some j \<and> well_keyed a" if "j \<in> set ?dkeys" "a \<in> set (g j)" for j a
  proof -
    from dk[OF that(1)] obtain d where d: "map_of ?dbk j = Some d" "event_key (event d) = Some j"
      by blast
    have "a \<in> set (actions p)" using that unfolding shape by auto
    then have "is_mutation a" by (rule mut)
    with desired_candidates_keys[OF g[OF that(1)] d kb that(2)] show ?thesis by blast
  qed
  have skeys: "action_key a = Some j \<and> well_keyed a \<and> map_of ?dbk j = None"
    if "a \<in> set (stale_key ?mbk ?dbk j)" for j a
    using stale_key_keys[OF kb that] by blast
  have wk: "\<forall>a \<in> set (actions p). well_keyed a"
    unfolding shape using gkeys skeys by auto
  have after: "filter ?P (applyPlan (actions p) T) = applyPlan (filter ?Q (actions p)) (filter ?P T)"
    by (rule filter_applyPlan[OF wk])
  have mP: "mset (filter ?P T) = mset (get_list ?mbk k)"
    by (simp add: get_list_managedByKey mset_bucket)
  show ?thesis
  proof (cases "map_of ?dbk k")
    case (Some d)
    then have kin: "k \<in> set ?dkeys"
      by (metis map_of_eq_None_iff option.distinct(1) set_map set_sort)
    have 1: "filter ?Q (concat (map g ?dkeys)) = filter ?Q (g k)"
    proof (rule filter_concat_single)
      show "distinct ?dkeys" by (simp add: distinct_desiredByKey)
      show "k \<in> set ?dkeys" by (rule kin)
      show "\<forall>x \<in> set (g j). \<not> ?Q x" if "j \<in> set ?dkeys" "j \<noteq> k" for j
        using gkeys[OF that(1)] that(2) by auto
    qed
    have 2: "filter ?Q (g k) = g k"
      using gkeys[OF kin] by (intro filter_all) simp
    have 3: "filter ?Q (concat (map (stale_key ?mbk ?dbk) ?mkeys)) = []"
      by (rule filter_concat_none) (use skeys Some in auto)
    have fQ: "filter ?Q (actions p) = g k"
      by (simp only: shape filter_append 1 2 3 append_Nil2)
    have "\<exists>x. applyPlan (g k) (filter ?P T) = [x] \<and> isEquivalent x (event d)"
    proof (cases "get_list ?mbk k")
      case Nil
      with mP have e: "filter ?P T = []" by simp
      have "\<forall>a \<in> set (g k). is_mutation a"
        using mut kin unfolding shape by auto
      then have ns: "g k \<noteq> [SkipOverlap d b]" for b by auto
      from desired_candidates_empty_bucket[OF g[OF kin] Some Nil]
      have "g k = [Create d]" using ns by blast
      then show ?thesis by (simp add: e applyPlan_def isEquivalent_def)
    next
      case (Cons primary duplicates)
      with g[OF kin] Some have "g k = (if \<not> isEquivalent primary (event d) then [Update primary d] else [])
             @ map Delete duplicates"
        by (simp add: desired_candidates_def)
      with apply_bucket_actions[of "filter ?P T" primary duplicates d] mP Cons
      show ?thesis by simp
    qed
    with Some show ?thesis by (simp add: after fQ)
  next
    case None
    have 1: "filter ?Q (concat (map g ?dkeys)) = []"
    proof (rule filter_concat_none)
      fix j assume j: "j \<in> set ?dkeys"
      with dk[OF j] None have "j \<noteq> k" by auto
      with gkeys[OF j] show "\<forall>x \<in> set (g j). \<not> ?Q x" by auto
    qed
    have 2: "filter ?Q (concat (map (stale_key ?mbk ?dbk) ?mkeys)) = map Delete (get_list ?mbk k)"
    proof (cases "k \<in> set ?mkeys")
      case True
      have "filter ?Q (concat (map (stale_key ?mbk ?dbk) ?mkeys)) = filter ?Q (stale_key ?mbk ?dbk k)"
      proof (rule filter_concat_single)
        show "distinct ?mkeys" by (simp add: distinct_managedByKey)
        show "k \<in> set ?mkeys" by (rule True)
        show "\<forall>x \<in> set (stale_key ?mbk ?dbk j). \<not> ?Q x" if "j \<noteq> k" for j
          using skeys[of _ j] that by auto
      qed
      also have "\<dots> = stale_key ?mbk ?dbk k"
        using skeys[of _ k] by (intro filter_all) simp
      finally show ?thesis using None by (simp add: stale_key_def)
    next
      case False
      then have "set (get_list ?mbk k) = {}"
        using keys_managedByKey[of lc T] by (auto simp: get_list_managedByKey set_bucket)
      then have e: "get_list ?mbk k = []" by simp
      have "filter ?Q (concat (map (stale_key ?mbk ?dbk) ?mkeys)) = []"
      proof (rule filter_concat_none)
        fix j assume "j \<in> set ?mkeys"
        with False have "j \<noteq> k" by auto
        with skeys[of _ j] show "\<forall>x \<in> set (stale_key ?mbk ?dbk j). \<not> ?Q x" by auto
      qed
      with e show ?thesis by simp
    qed
    have fQ: "filter ?Q (actions p) = map Delete (get_list ?mbk k)"
      by (simp only: shape filter_append 1 2 append_Nil)
    have "applyPlan (map Delete (get_list ?mbk k)) (filter ?P T) = []"
      by (rule apply_stale_actions[OF mP])
    with None show ?thesis by (simp add: after fQ)
  qed
qed

lemma bucket_of_filter:
  "filter (\<lambda>ev. event_key ev = Some k) T = [x] \<Longrightarrow> bucket lc T k = [x]"
  "filter (\<lambda>ev. event_key ev = Some k) T = [] \<Longrightarrow> bucket lc T k = []"
proof -
  assume "filter (\<lambda>ev. event_key ev = Some k) T = [x]"
  then have "mset (bucket lc T k) = {#x#}" by (simp add: mset_bucket)
  then show "bucket lc T k = [x]" by (rule mset_singleton_list)
next
  assume "filter (\<lambda>ev. event_key ev = Some k) T = []"
  then have "mset (bucket lc T k) = {#}" by (simp add: mset_bucket)
  then show "bucket lc T k = []" by simp
qed

lemma candidates_converged:
  assumes "\<And>k. case map_of (desiredByKey D) k of
           Some d \<Rightarrow> \<exists>x. filter (\<lambda>ev. event_key ev = Some k) T = [x] \<and> isEquivalent x (event d)
         | None \<Rightarrow> filter (\<lambda>ev. event_key ev = Some k) T = []"
  shows "candidates lc dp D T pol = Inr []"
proof -
  let ?mbk = "managedByKey lc (filter is_managed T)"
  let ?dbk = "desiredByKey D"
  let ?U = "filter (\<lambda>e. \<not> is_managed e) T"
  have 1: "desired_candidates dp pol ?mbk ?dbk ?U k = Inr []" for k
  proof (cases "map_of ?dbk k")
    case None
    then show ?thesis by (simp add: desired_candidates_def)
  next
    case (Some d)
    with assms[of k] obtain x where "filter (\<lambda>ev. event_key ev = Some k) T = [x]"
      "isEquivalent x (event d)" by auto
    with Some show ?thesis
      by (simp add: desired_candidates_def get_list_managedByKey bucket_of_filter(1))
  qed
  have 2: "stale_key ?mbk ?dbk k = []" for k
  proof (cases "map_of ?dbk k")
    case None
    with assms[of k] show ?thesis
      by (simp add: stale_key_def get_list_managedByKey bucket_of_filter(2))
  next
    case (Some d)
    then show ?thesis by (simp add: stale_key_def)
  qed
  have "collect (desired_candidates dp pol ?mbk ?dbk ?U) (sort (map fst ?dbk)) = Inr []"
    by (rule collect_all_Nil) (rule 1)
  moreover have "stale_candidates ?mbk ?dbk = []"
    unfolding stale_candidates_def by (rule concat_all_Nil) (rule 2)
  ultimately show ?thesis
    unfolding candidates_unfold[of lc dp D T pol] by simp
qed

lemma tagged_desiredHold: "tagged (desiredHold src)"
  by (simp add: tagged_def desiredHold_def timedEvent_def event_key_def decode_encode)

lemma decode_ex_unmanaged: "decodeSourceRef (description (ex_unmanaged i)) = None"
  by (simp add: ex_unmanaged_def timedEvent_def decodeSourceRef_def)

lemma source_desiredHold: "source (desiredHold src) = src"
  by (simp add: desiredHold_def)

lemma id_ex_unmanaged: "id_e (ex_unmanaged i) = i"
  by (simp add: ex_unmanaged_def timedEvent_def)

lemma ex_overlap:
  "isOverlap ex_dp (ex_unmanaged i) (event (desiredHold (ex_source (js ''a'') (js ''1'')))) = Inr True"
  by (simp add: isOverlap_def eventRange_def parseRange_def parseIso_def ex_dp_def str_def
      truthy_def ex_unmanaged_def desiredHold_def timedEvent_def ex_source_def js_eval)

lemmas plan_eval_unmanaged =
  planReconcile_candidates candidates_def splitManaged_filter managedByKey_def
  desiredByKey_def sort_cmp_def desired_candidates_def stale_candidates_def stale_key_def
  get_list_def mutations_def is_managed_def decode_ex_unmanaged source_desiredHold
  id_ex_unmanaged ex_overlap

section \<open>The first failing overlap search\<close>












section \<open>The example collation\<close>

lemma consistent_ex_collate: "consistent_cmp ex_collate"
  unfolding consistent_cmp_def ex_collate_def by (auto simp: not_less)

lemma ex_collate_a_B:
  "ex_collate [ch CHR ''a''] [ch CHR ''B''] = - 1" "ex_collate [ch CHR ''B''] [ch CHR ''a''] = 1"
  "ex_collate (js ''a'') (js ''B'') = - 1" "ex_collate (js ''B'') (js ''a'') = 1"
proof -
  have 1: "fold_case (ch CHR ''B'') = ch CHR ''b''" by (simp add: fold_case_def ch_def)
  have 2: "fold_case (ch CHR ''a'') = ch CHR ''a''" by (simp add: fold_case_def ch_def)
  show "ex_collate [ch CHR ''a''] [ch CHR ''B''] = - 1" "ex_collate [ch CHR ''B''] [ch CHR ''a''] = 1"
    by (simp_all add: ex_collate_def 1 2 js_eval)
  then show "ex_collate (js ''a'') (js ''B'') = - 1" "ex_collate (js ''B'') (js ''a'') = 1"
    by (simp_all add: js_eval)
qed

section \<open>Descriptions that do not decode\<close>

text \<open>The payloads \<open>bnVsbA\<close>, \<open>e30\<close> and \<open>eyJ0aXRsZSI6MX0\<close> are the base64url encodings of
  \<open>null\<close>, \<open>{}\<close> and \<open>{"title":1}\<close>.\<close>

lemma parse_numeral:
  "parse_value (numeral k) s = parse_value (Suc (pred_numeral k)) s"
  "parse_elems (numeral k) s = parse_elems (Suc (pred_numeral k)) s"
  "parse_members (numeral k) s = parse_members (Suc (pred_numeral k)) s"
  by (simp_all only: numeral_eq_Suc)

lemmas trim_eval = trim_def is_space_def unat_ch js_eval

lemmas base64_eval = base64url_decode_def unbase64_def unat_ch js_eval

lemmas utf8_eval = toString_utf8_def utf8_first_def utf16_encode_def js_eval ch_def

lemmas parse_eval = JSON_parse_def skip_ws_def is_ws_def unat_ch js_eval parse_numeral

lemma tag_payload:
  "indexOf (js ''SYNCV1:'' @ t) METADATA_PREFIX = Some 0"
  "drop (0 + length METADATA_PREFIX) (js ''SYNCV1:'' @ t) = t"
proof -
  show "indexOf (js ''SYNCV1:'' @ t) METADATA_PREFIX = Some 0"
    unfolding METADATA_PREFIX_def by (rule indexOf_prefix) (simp add: js_def)
  show "drop (0 + length METADATA_PREFIX) (js ''SYNCV1:'' @ t) = t"
    by (simp add: METADATA_PREFIX_def)
qed

lemma foreign_description: "indexOf (js ''Lunch with Sam'') METADATA_PREFIX = None"
  by (simp add: METADATA_PREFIX_def js_eval)

lemma payload_blank: "trim (js ''  '') = []"
  by (simp add: trim_eval)

lemma payload_not_json:
  "JSON_parse (toString_utf8 (base64url_decode (trim (js ''!!!!'')))) = None"
proof -
  have "trim (js ''!!!!'') = js ''!!!!''" by (simp add: trim_eval)
  moreover have "base64url_decode (js ''!!!!'') = []" by (simp add: base64_eval)
  moreover have "toString_utf8 [] = []" by (simp add: toString_utf8_def)
  moreover have "JSON_parse [] = None" by (simp add: parse_eval del: Suc_numeral)
  ultimately show ?thesis by simp
qed

lemma payload_null:
  "JSON_parse (toString_utf8 (base64url_decode (trim (js ''bnVsbA'')))) = Some JNull"
proof -
  have "trim (js ''bnVsbA'') = js ''bnVsbA''" by (simp add: trim_eval)
  moreover have "base64url_decode (js ''bnVsbA'') = [110, 117, 108, 108]"
    by (simp add: base64_eval)
  moreover have "toString_utf8 [110, 117, 108, 108] = js ''null''" by (simp add: utf8_eval)
  moreover have "JSON_parse (js ''null'') = Some JNull"
    by (simp add: parse_eval parse_literal_def del: Suc_numeral)
  ultimately show ?thesis by simp
qed

lemma payload_empty_object:
  "JSON_parse (toString_utf8 (base64url_decode (trim (js ''e30'')))) = Some (JObj [])"
proof -
  have "trim (js ''e30'') = js ''e30''" by (simp add: trim_eval)
  moreover have "base64url_decode (js ''e30'') = [123, 125]" by (simp add: base64_eval)
  moreover have "toString_utf8 [123, 125] = js ''{}''" by (simp add: utf8_eval)
  moreover have "JSON_parse (js ''{}'') = Some (JObj [])"
    by (simp add: parse_eval del: Suc_numeral)
  ultimately show ?thesis by simp
qed

lemma payload_number_title:
  "JSON_parse (toString_utf8 (base64url_decode (trim (js ''eyJ0aXRsZSI6MX0''))))
   = Some (JObj [(js ''title'', JNum (js ''1''))])"
proof -
  let ?text = "js (CHR ''{'' # CHR 0x22 # ''title'' @ CHR 0x22 # '':1}'')"
  have "trim (js ''eyJ0aXRsZSI6MX0'') = js ''eyJ0aXRsZSI6MX0''" by (simp add: trim_eval)
  moreover have "base64url_decode (js ''eyJ0aXRsZSI6MX0'')
      = [123, 34, 116, 105, 116, 108, 101, 34, 58, 49, 125]"
    by (simp add: base64_eval)
  moreover have "toString_utf8 [123, 34, 116, 105, 116, 108, 101, 34, 58, 49, 125] = ?text"
    by (simp add: utf8_eval)
  moreover have "JSON_parse ?text = Some (JObj [(js ''title'', JNum (js ''1''))])"
    by (simp add: parse_eval parse_number_def parse_int_part_def parse_frac_def parse_exp_def
        is_digit_def prepend_def unescape_def del: Suc_numeral)
  ultimately show ?thesis by simp
qed

lemma tag_split:
  "js ''SYNCV1:  '' = js ''SYNCV1:'' @ js ''  ''"
  "js ''SYNCV1:!!!!'' = js ''SYNCV1:'' @ js ''!!!!''"
  "js ''SYNCV1:bnVsbA'' = js ''SYNCV1:'' @ js ''bnVsbA''"
  "js ''SYNCV1:e30'' = js ''SYNCV1:'' @ js ''e30''"
  "js ''SYNCV1:eyJ0aXRsZSI6MX0'' = js ''SYNCV1:'' @ js ''eyJ0aXRsZSI6MX0''"
  by (simp_all add: js_def)

section \<open>The claims about the planner\<close>

lemmas plan_eval =
  planReconcile_candidates candidates_def splitManaged_filter managedByKey_def
  desiredByKey_def sort_cmp_def desired_candidates_def stale_candidates_def stale_key_def
  get_list_def holdKey_def mutations_def skips_def is_managed_def add_managed_def
  isEquivalent_def decode_encode desiredHold_def timedEvent_def ex_source_def ex_lc_def
  ex_drifted_def targets_simps by_id_def ex_rangeless_def complete_range_def truthy_def
  js_eval

lemmas plan_eval4 = plan_eval isOverlap_def eventRange_def parseRange_def parseIso_def
  ex_dp_def str_def applyPlan_def skips_def touches_key_def event_key_def

subsection \<open>C3: the change budget\<close>

text \<open>
  C3.  With \<open>maxChangesPerRun = N \<ge> 1\<close>, a returned plan holds at most \<open>N\<close> create, update
  and delete actions.  The mutations required to converge are those of a plan that is not
  capped; such a plan exists for a large enough budget, and against any of them the plan
  under \<open>N\<close> holds \<open>min N R\<close> mutations, is capped exactly when \<open>N < R\<close>, and holds the same
  \<open>skip_overlap\<close> actions, which the budget never counts.
\<close>

theorem budget_enforcement:
  assumes "1 \<le> N" and "planReconcile lc dp D T pol N = Inr p"
  shows "length (mutations (actions p)) \<le> nat N
    \<and> (\<exists>M q. planReconcile lc dp D T pol M = Inr q \<and> \<not> capped q)
    \<and> (\<forall>M q. planReconcile lc dp D T pol M = Inr q \<and> \<not> capped q \<longrightarrow>
          length (mutations (actions p)) = min (nat N) (length (mutations (actions q)))
          \<and> capped p = (nat N < length (mutations (actions q)))
          \<and> skips (actions p) = skips (actions q))"
proof -
  from assms(2) obtain cs where cs: "candidates lc dp D T pol = Inr cs"
    "actions p = admit (nat N) cs" "capped p = (nat N < length (mutations cs))"
    by (rule planReconcile_Inr)
  have 1: "length (mutations (actions p)) \<le> nat N"
    by (simp add: cs(2) mutations_admit)
  let ?M = "int (length (mutations cs))"
  have "planReconcile lc dp D T pol ?M = Inr \<lparr>actions = admit (nat ?M) cs, desiredCount = length D,
               existingManagedCount = length (filter is_managed T),
               capped = (nat ?M < length (mutations cs))\<rparr>"
    by (simp add: planReconcile_candidates cs(1))
  then have 2: "\<exists>M q. planReconcile lc dp D T pol M = Inr q \<and> \<not> capped q"
    by (intro exI[of _ ?M] exI[of _ "\<lparr>actions = admit (nat ?M) cs, desiredCount = length D,
               existingManagedCount = length (filter is_managed T),
               capped = (nat ?M < length (mutations cs))\<rparr>"]) simp
  have 3: "length (mutations (actions p)) = min (nat N) (length (mutations (actions q)))
          \<and> capped p = (nat N < length (mutations (actions q)))
          \<and> skips (actions p) = skips (actions q)"
    if "planReconcile lc dp D T pol M = Inr q \<and> \<not> capped q" for M q
  proof -
    from that have "candidates lc dp D T pol = Inr (actions q)"
      using planReconcile_uncapped by blast
    with cs(1) have "actions q = cs" by simp
    then show ?thesis by (simp add: cs mutations_admit skips_admit min.commute)
  qed
  from 1 2 3 show ?thesis by blast
qed

theorem budget_enforcement_witness:
  "planReconcile ex_lc ex_dp [desiredHold (ex_source (js ''a'') (js ''1'')), desiredHold (ex_source (js ''b'') (js ''1''))]
     [] Allow 1
   = Inr \<lparr>actions = [Create (desiredHold (ex_source (js ''a'') (js ''1'')))], desiredCount = 2,
          existingManagedCount = 0, capped = True\<rparr>
   \<and> planReconcile ex_lc ex_dp [desiredHold (ex_source (js ''a'') (js ''1'')), desiredHold (ex_source (js ''b'') (js ''1''))]
     [] Allow 2
   = Inr \<lparr>actions = [Create (desiredHold (ex_source (js ''a'') (js ''1''))),
                       Create (desiredHold (ex_source (js ''b'') (js ''1'')))], desiredCount = 2,
          existingManagedCount = 0, capped = False\<rparr>
   \<and> length (mutations [Create (desiredHold (ex_source (js ''a'') (js ''1'')))])
     = min (nat 1) (length (mutations [Create (desiredHold (ex_source (js ''a'') (js ''1''))),
                       Create (desiredHold (ex_source (js ''b'') (js ''1'')))]))"
proof -
  let ?D = "[desiredHold (ex_source (js ''a'') (js ''1'')), desiredHold (ex_source (js ''b'') (js ''1''))]"
  let ?p = "\<lparr>actions = [Create (desiredHold (ex_source (js ''a'') (js ''1'')))], desiredCount = 2,
          existingManagedCount = 0, capped = True\<rparr>"
  let ?q = "\<lparr>actions = [Create (desiredHold (ex_source (js ''a'') (js ''1''))),
                       Create (desiredHold (ex_source (js ''b'') (js ''1'')))], desiredCount = 2,
          existingManagedCount = 0, capped = False\<rparr>"
  have p: "planReconcile ex_lc ex_dp ?D [] Allow 1 = Inr ?p"
    by (simp add: plan_eval)
  have q: "planReconcile ex_lc ex_dp ?D [] Allow 2 = Inr ?q"
    by (simp add: plan_eval)
  have one: "(1::int) \<le> 1" by simp
  note b = budget_enforcement[OF one p, THEN conjunct2, THEN conjunct2, rule_format, of 2 ?q]
  have "length (mutations (actions ?p)) = min (nat 1) (length (mutations (actions ?q)))"
    using b q by simp
  with p q show ?thesis by simp
qed

subsection \<open>C4: unmanaged events are never touched\<close>

text \<open>
  C4.  In every returned plan, the existing event of each update and each delete is an event
  of \<open>targetEvents\<close> whose description decodes to a \<open>SourceRef\<close>; so an event whose
  description does not decode is neither updated nor deleted.  A description decodes to absent,
  without an error, when it is absent or empty, when it does not hold the prefix (foreign
  content), and when it is malformed: nothing but white space follows the prefix, the payload
  is not JSON, or the parsed payload fails the check of the six fields, that is, for one of
  the six names it is not an object whose member of that name is a string (the value is not
  an object, the member is missing, or the member is not a string).
\<close>

theorem unmanaged_never_touched:
  assumes "planReconcile lc dp D T pol N = Inr p"
  shows "(\<forall>a \<in> set (actions p). \<forall>ev::GogEvent. target_of a = Some ev \<longrightarrow>
            ev \<in> set T \<and> decodeSourceRef (description ev) \<noteq> None)
     \<and> (\<forall>ev::GogEvent. decodeSourceRef (description ev) = None \<longrightarrow>
            Delete ev \<notin> set (actions p) \<and> (\<forall>d. Update ev d \<notin> set (actions p)))
     \<and> decodeSourceRef None = None
     \<and> decodeSourceRef (Some []) = None
     \<and> (\<forall>d. indexOf d METADATA_PREFIX = None \<longrightarrow> decodeSourceRef (Some d) = None)
     \<and> (\<forall>d i. indexOf d METADATA_PREFIX = Some i \<and>
            trim (drop (i + length METADATA_PREFIX) d) = []
            \<longrightarrow> decodeSourceRef (Some d) = None)
     \<and> (\<forall>d i. indexOf d METADATA_PREFIX = Some i \<and>
            JSON_parse (toString_utf8 (base64url_decode
              (trim (drop (i + length METADATA_PREFIX) d)))) = None
            \<longrightarrow> decodeSourceRef (Some d) = None)
     \<and> (\<forall>d i v name. indexOf d METADATA_PREFIX = Some i \<and>
            JSON_parse (toString_utf8 (base64url_decode
              (trim (drop (i + length METADATA_PREFIX) d)))) = Some v \<and>
            name \<in> {js ''srcAccount'', js ''srcCalendar'', js ''eventId'', js ''start'',
                     js ''end'', js ''title''} \<and>
            string_property v name = None
            \<longrightarrow> decodeSourceRef (Some d) = None)
     \<and> (\<forall>v name. (string_property v name = None) =
            (\<not> (\<exists>kvs s. v = JObj kvs \<and> map_of (rev kvs) name = Some (JStr s))))"
proof -
  from assms obtain cs where cs: "candidates lc dp D T pol = Inr cs"
    "actions p = admit (nat N) cs"
    by (rule planReconcile_Inr)
  have sub: "set (targets (actions p)) \<subseteq> {ev \<in> set T. is_managed ev}"
    using candidates_targets[OF cs(1)] targets_admit_subset[of "nat N" cs] cs(2) by auto
  have t: "ev \<in> set (targets as)" if "a \<in> set as" "target_of a = Some ev" for a as ev
    using that by (auto simp: targets_def List.map_filter_def intro!: image_eqI[of _ _ a])
  have 1: "\<forall>a \<in> set (actions p). \<forall>ev::GogEvent. target_of a = Some ev \<longrightarrow>
            ev \<in> set T \<and> decodeSourceRef (description ev) \<noteq> None"
    using sub t by (fastforce simp: is_managed_def)
  have 2: "\<forall>ev::GogEvent. decodeSourceRef (description ev) = None \<longrightarrow>
            Delete ev \<notin> set (actions p) \<and> (\<forall>d. Update ev d \<notin> set (actions p))"
  proof (intro allI impI conjI)
    fix ev :: GogEvent assume n: "decodeSourceRef (description ev) = None"
    show "Delete ev \<notin> set (actions p)" using 1 n by force
    show "Update ev d \<notin> set (actions p)" for d using 1 n by force
  qed
  have 3: "decodeSourceRef None = None" "decodeSourceRef (Some []) = None"
    by (simp_all add: decodeSourceRef_def)
  have 4: "\<forall>d. indexOf d METADATA_PREFIX = None \<longrightarrow> decodeSourceRef (Some d) = None"
    by (simp add: decodeSourceRef_def)
  have 5: "\<forall>d i. indexOf d METADATA_PREFIX = Some i \<and>
            trim (drop (i + length METADATA_PREFIX) d) = []
            \<longrightarrow> decodeSourceRef (Some d) = None"
    by (auto simp: decodeSourceRef_def Let_def)
  have 6: "\<forall>d i. indexOf d METADATA_PREFIX = Some i \<and>
            JSON_parse (toString_utf8 (base64url_decode
              (trim (drop (i + length METADATA_PREFIX) d)))) = None
            \<longrightarrow> decodeSourceRef (Some d) = None"
    by (auto simp: decodeSourceRef_def Let_def)
  have 7: "\<forall>d i v name. indexOf d METADATA_PREFIX = Some i \<and>
            JSON_parse (toString_utf8 (base64url_decode
              (trim (drop (i + length METADATA_PREFIX) d)))) = Some v \<and>
            name \<in> {js ''srcAccount'', js ''srcCalendar'', js ''eventId'', js ''start'',
                     js ''end'', js ''title''} \<and>
            string_property v name = None
            \<longrightarrow> decodeSourceRef (Some d) = None"
    by (auto simp: decodeSourceRef_def Let_def split: option.splits)
  have 8: "\<forall>v name. (string_property v name = None) =
            (\<not> (\<exists>kvs s. v = JObj kvs \<and> map_of (rev kvs) name = Some (JStr s)))"
    by (auto simp: string_property_def split: json.splits option.splits)
  from 1 2 3 4 5 6 7 8 show ?thesis by blast
qed

text \<open>A plan that updates a managed event beside an unmanaged one; and descriptions that
  decode to absent: foreign text, a prefix with nothing but white space after it, a payload
  that is not JSON, and the payloads \<open>null\<close>, \<open>{}\<close> and \<open>{"title":1}\<close>, which fail the check
  of the fields.\<close>

theorem unmanaged_never_touched_witness:
  "planReconcile ex_lc ex_dp [desiredHold (ex_source (js ''a'') (js ''1''))]
     [ex_drifted (js ''m1'') (ex_source (js ''a'') (js ''1'')),
      timedEvent (js ''u1'') (js ''2026-03-02T12:00:00.000Z'') (js ''2026-03-02T12:30:00.000Z'') None]
     Allow 10
   = Inr \<lparr>actions = [Update (ex_drifted (js ''m1'') (ex_source (js ''a'') (js ''1'')))
                         (desiredHold (ex_source (js ''a'') (js ''1'')))],
          desiredCount = 1, existingManagedCount = 1, capped = False\<rparr>
   \<and> decodeSourceRef (description (ex_drifted (js ''m1'') (ex_source (js ''a'') (js ''1'')))) \<noteq> None
   \<and> decodeSourceRef (description
        (timedEvent (js ''u1'') (js ''2026-03-02T12:00:00.000Z'') (js ''2026-03-02T12:30:00.000Z'')
           None)) = None
   \<and> decodeSourceRef (Some (js ''Lunch with Sam'')) = None
   \<and> decodeSourceRef (Some (js ''SYNCV1:  '')) = None
   \<and> decodeSourceRef (Some (js ''SYNCV1:!!!!'')) = None
   \<and> decodeSourceRef (Some (js ''SYNCV1:bnVsbA'')) = None
   \<and> decodeSourceRef (Some (js ''SYNCV1:e30'')) = None
   \<and> decodeSourceRef (Some (js ''SYNCV1:eyJ0aXRsZSI6MX0'')) = None"
proof -
  let ?m = "ex_drifted (js ''m1'') (ex_source (js ''a'') (js ''1''))"
  let ?u = "timedEvent (js ''u1'') (js ''2026-03-02T12:00:00.000Z'') (js ''2026-03-02T12:30:00.000Z'') None"
  let ?d = "desiredHold (ex_source (js ''a'') (js ''1''))"
  let ?p = "\<lparr>actions = [Update ?m ?d], desiredCount = 1, existingManagedCount = 1, capped = False\<rparr>"
  have u: "decodeSourceRef (description ?u) = None"
    by (simp add: timedEvent_def decodeSourceRef_def)
  have p: "planReconcile ex_lc ex_dp [?d] [?m, ?u] Allow 10 = Inr ?p"
    using u by (simp add: plan_eval)
  note t = unmanaged_never_touched[OF p]
  have m: "decodeSourceRef (description ?m) \<noteq> None"
    using t[THEN conjunct1, rule_format, of "Update ?m ?d" ?m] by simp
  note rest = t[THEN conjunct2, THEN conjunct2, THEN conjunct2, THEN conjunct2]
  have 1: "decodeSourceRef (Some (js ''Lunch with Sam'')) = None"
    using rest[THEN conjunct1, rule_format, OF foreign_description] .
  have 2: "decodeSourceRef (Some (js ''SYNCV1:  '')) = None"
    unfolding tag_split
    using rest[THEN conjunct2, THEN conjunct1, rule_format, of "js ''SYNCV1:'' @ js ''  ''" 0]
    by (simp only: tag_payload payload_blank simp_thms)
  have 3: "decodeSourceRef (Some (js ''SYNCV1:!!!!'')) = None"
    unfolding tag_split
    using rest[THEN conjunct2, THEN conjunct2, THEN conjunct1, rule_format,
        of "js ''SYNCV1:'' @ js ''!!!!''" 0]
    by (simp only: tag_payload payload_not_json simp_thms)
  note fields = rest[THEN conjunct2, THEN conjunct2, THEN conjunct2, THEN conjunct1, rule_format]
  have n: "string_property JNull (js ''srcAccount'') = None"
    "string_property (JObj []) (js ''srcAccount'') = None"
    "string_property (JObj [(js ''title'', JNum (js ''1''))]) (js ''title'') = None"
    by (simp_all add: string_property_def)
  have 4: "decodeSourceRef (Some (js ''SYNCV1:bnVsbA'')) = None"
    unfolding tag_split
  proof (rule fields[of "js ''SYNCV1:'' @ js ''bnVsbA''" 0 "JNull" "js ''srcAccount''"], intro conjI)
    show "indexOf (js ''SYNCV1:'' @ js ''bnVsbA'') METADATA_PREFIX = Some 0" by (rule tag_payload)
    show "JSON_parse (toString_utf8 (base64url_decode (trim
        (drop (0 + length METADATA_PREFIX) (js ''SYNCV1:'' @ js ''bnVsbA''))))) = Some JNull"
      by (simp only: tag_payload payload_null)
    show "js ''srcAccount'' \<in> {js ''srcAccount'', js ''srcCalendar'', js ''eventId'', js ''start'',
        js ''end'', js ''title''}" by simp
    show "string_property JNull (js ''srcAccount'') = None" by (rule n)
  qed
  have 5: "decodeSourceRef (Some (js ''SYNCV1:e30'')) = None"
    unfolding tag_split
  proof (rule fields[of "js ''SYNCV1:'' @ js ''e30''" 0 "JObj []" "js ''srcAccount''"], intro conjI)
    show "indexOf (js ''SYNCV1:'' @ js ''e30'') METADATA_PREFIX = Some 0" by (rule tag_payload)
    show "JSON_parse (toString_utf8 (base64url_decode (trim
        (drop (0 + length METADATA_PREFIX) (js ''SYNCV1:'' @ js ''e30''))))) = Some (JObj [])"
      by (simp only: tag_payload payload_empty_object)
    show "js ''srcAccount'' \<in> {js ''srcAccount'', js ''srcCalendar'', js ''eventId'', js ''start'',
        js ''end'', js ''title''}" by simp
    show "string_property (JObj []) (js ''srcAccount'') = None" by (rule n)
  qed
  have 6: "decodeSourceRef (Some (js ''SYNCV1:eyJ0aXRsZSI6MX0'')) = None"
    unfolding tag_split
  proof (rule fields[of "js ''SYNCV1:'' @ js ''eyJ0aXRsZSI6MX0''" 0 "JObj [(js ''title'', JNum (js ''1''))]" "js ''title''"], intro conjI)
    show "indexOf (js ''SYNCV1:'' @ js ''eyJ0aXRsZSI6MX0'') METADATA_PREFIX = Some 0" by (rule tag_payload)
    show "JSON_parse (toString_utf8 (base64url_decode (trim
        (drop (0 + length METADATA_PREFIX) (js ''SYNCV1:'' @ js ''eyJ0aXRsZSI6MX0''))))) = Some (JObj [(js ''title'', JNum (js ''1''))])"
      by (simp only: tag_payload payload_number_title)
    show "js ''title'' \<in> {js ''srcAccount'', js ''srcCalendar'', js ''eventId'', js ''start'',
        js ''end'', js ''title''}" by simp
    show "string_property (JObj [(js ''title'', JNum (js ''1''))]) (js ''title'') = None" by (rule n)
  qed
  from p m u 1 2 3 4 5 6 show ?thesis by blast
qed

subsection \<open>C10: at most one action per target event\<close>

text \<open>
  C10.  When the target events have pairwise distinct ids, the existing events of the
  update and delete actions of a returned plan, listed in plan order, have pairwise distinct
  ids: no target event is the subject of two such actions.
\<close>

theorem one_action_per_target:
  assumes "distinct (map id_e T)" and "planReconcile lc dp D T pol N = Inr p"
  shows "distinct (map id_e (targets (actions p)))"
proof -
  from assms(2) obtain cs where cs: "candidates lc dp D T pol = Inr cs"
    "actions p = admit (nat N) cs"
    by (rule planReconcile_Inr)
  from assms(1) have dT: "distinct T" and inj: "inj_on id_e (set T)"
    by (simp_all add: distinct_map)
  have "distinct (targets (actions p))"
    using candidates_distinct[OF cs(1) dT] by (simp add: cs(2) distinct_targets_admit)
  moreover have "set (targets (actions p)) \<subseteq> set T"
    using candidates_targets[OF cs(1)] targets_admit_subset[of "nat N" cs] cs(2) by auto
  ultimately show ?thesis
    using inj by (auto simp: distinct_map intro: inj_on_subset)
qed

theorem one_action_per_target_witness:
  "distinct (map id_e
     [ex_drifted (js ''m1'') (ex_source (js ''a'') (js ''1'')), ex_drifted (js ''m2'') (ex_source (js ''a'') (js ''1'')),
      ex_drifted (js ''m3'') (ex_source (js ''z'') (js ''2''))])
   \<and> planReconcile ex_lc ex_dp [desiredHold (ex_source (js ''a'') (js ''1''))]
     [ex_drifted (js ''m1'') (ex_source (js ''a'') (js ''1'')), ex_drifted (js ''m2'') (ex_source (js ''a'') (js ''1'')),
      ex_drifted (js ''m3'') (ex_source (js ''z'') (js ''2''))] Allow 10
   = Inr \<lparr>actions = [Update (ex_drifted (js ''m1'') (ex_source (js ''a'') (js ''1''))) (desiredHold (ex_source (js ''a'') (js ''1''))),
                     Delete (ex_drifted (js ''m2'') (ex_source (js ''a'') (js ''1''))),
                     Delete (ex_drifted (js ''m3'') (ex_source (js ''z'') (js ''2'')))],
          desiredCount = 1, existingManagedCount = 3, capped = False\<rparr>
   \<and> distinct [(js ''m1''), (js ''m2''), (js ''m3'')]"
proof -
  let ?T = "[ex_drifted (js ''m1'') (ex_source (js ''a'') (js ''1'')), ex_drifted (js ''m2'') (ex_source (js ''a'') (js ''1'')),
      ex_drifted (js ''m3'') (ex_source (js ''z'') (js ''2''))]"
  let ?d = "desiredHold (ex_source (js ''a'') (js ''1''))"
  let ?p = "\<lparr>actions = [Update (ex_drifted (js ''m1'') (ex_source (js ''a'') (js ''1''))) ?d,
                     Delete (ex_drifted (js ''m2'') (ex_source (js ''a'') (js ''1''))),
                     Delete (ex_drifted (js ''m3'') (ex_source (js ''z'') (js ''2'')))],
          desiredCount = 1, existingManagedCount = 3, capped = False\<rparr>"
  have d: "distinct (map id_e ?T)" by (simp add: ex_drifted_def timedEvent_def)
  have p: "planReconcile ex_lc ex_dp [?d] ?T Allow 10 = Inr ?p"
    by (simp add: plan_eval)
  have "distinct (map id_e (targets (actions ?p)))"
    by (rule one_action_per_target[OF d p])
  then have "distinct [(js ''m1''), (js ''m2''), (js ''m3'')]"
    by (simp add: targets_simps ex_drifted_def timedEvent_def)
  with d p show ?thesis by simp
qed

subsection \<open>C6: the stale-and-fresh scenario\<close>

text \<open>
  C6, as the code has it.  With one desired hold \<open>fresh\<close>, one managed target event tagged
  for a source of another key, and a budget of at least two, the plan is exactly
  \<open>[create(fresh), delete(stale)]\<close>: the loop over the desired keys runs before the stale
  cleanup.  The two time ranges play no part, since there is no unmanaged event to overlap.
\<close>

theorem stale_and_fresh:
  assumes "decodeSourceRef (description stale_ev) = Some s"
    and "holdKey s \<noteq> holdKey (source fresh)"
    and "2 \<le> N"
  shows "planReconcile lc dp [fresh] [stale_ev] pol N
     = Inr \<lparr>actions = [Create fresh, Delete stale_ev], desiredCount = 1,
            existingManagedCount = 1, capped = False\<rparr>"
proof -
  have c: "candidates lc dp [fresh] [stale_ev] pol = Inr [Create fresh, Delete stale_ev]"
    using assms(1,2)
    by (auto simp: candidates_def splitManaged_filter managedByKey_def desiredByKey_def
        sort_cmp_def desired_candidates_def stale_candidates_def stale_key_def get_list_def
        is_managed_def add_managed_def)
  define m where "m = nat N - 2"
  have m: "nat N = Suc (Suc m)" using assms(3) unfolding m_def by linarith
  show ?thesis
    using assms(1) by (simp add: planReconcile_candidates c m mutations_def is_managed_def)
qed

theorem stale_and_fresh_witness:
  "decodeSourceRef (description (timedEvent (js ''managed-stale'') (js ''2026-03-02T12:00:00.000Z'')
       (js ''2026-03-02T12:30:00.000Z'') (Some (encodeSourceRef (ex_source (js ''stale'') (js ''2''))))))
     = Some (ex_source (js ''stale'') (js ''2''))
   \<and> holdKey (ex_source (js ''stale'') (js ''2'')) \<noteq> holdKey (source (desiredHold (ex_source (js ''fresh'') (js ''1''))))
   \<and> planReconcile ex_lc ex_dp [desiredHold (ex_source (js ''fresh'') (js ''1''))]
       [timedEvent (js ''managed-stale'') (js ''2026-03-02T12:00:00.000Z'')
          (js ''2026-03-02T12:30:00.000Z'') (Some (encodeSourceRef (ex_source (js ''stale'') (js ''2''))))]
       Allow 10
     = Inr \<lparr>actions = [Create (desiredHold (ex_source (js ''fresh'') (js ''1''))),
                       Delete (timedEvent (js ''managed-stale'') (js ''2026-03-02T12:00:00.000Z'')
          (js ''2026-03-02T12:30:00.000Z'') (Some (encodeSourceRef (ex_source (js ''stale'') (js ''2'')))))],
            desiredCount = 1, existingManagedCount = 1, capped = False\<rparr>"
proof -
  let ?e = "timedEvent (js ''managed-stale'') (js ''2026-03-02T12:00:00.000Z'')
       (js ''2026-03-02T12:30:00.000Z'') (Some (encodeSourceRef (ex_source (js ''stale'') (js ''2''))))"
  have 1: "decodeSourceRef (description ?e) = Some (ex_source (js ''stale'') (js ''2''))"
    by (simp add: timedEvent_def decode_encode)
  have 2: "holdKey (ex_source (js ''stale'') (js ''2'')) \<noteq> holdKey (source (desiredHold (ex_source (js ''fresh'') (js ''1''))))"
    by (simp add: holdKey_def ex_source_def desiredHold_def js_eval)
  have 3: "(2::int) \<le> 10" by simp
  from stale_and_fresh[OF 1 2 3, of ex_lc ex_dp Allow] 1 2 show ?thesis by simp
qed

text \<open>On the input of the repository's test, the plan is not \<open>[delete, create]\<close>.\<close>

theorem delete_before_create_counterexample:
  "\<not> (\<exists>p. planReconcile ex_lc ex_dp [desiredHold (ex_source (js ''fresh'') (js ''1''))]
       [timedEvent (js ''managed-stale'') (js ''2026-03-02T12:00:00.000Z'')
          (js ''2026-03-02T12:30:00.000Z'') (Some (encodeSourceRef (ex_source (js ''stale'') (js ''2''))))]
       Allow 10 = Inr p
     \<and> actions p = [Delete (timedEvent (js ''managed-stale'') (js ''2026-03-02T12:00:00.000Z'')
          (js ''2026-03-02T12:30:00.000Z'') (Some (encodeSourceRef (ex_source (js ''stale'') (js ''2''))))),
                    Create (desiredHold (ex_source (js ''fresh'') (js ''1'')))])"
  by (simp add: plan_eval)

subsection \<open>C7: malformed time ranges\<close>




subsection \<open>C5: duplicate collapse\<close>

text \<open>
  C5, as the code has it.  Let \<open>localeCompare\<close> be a consistent comparator, let exactly two
  target events \<open>a\<close> and \<open>b\<close> have the key \<open>k\<close>, the id of \<open>a\<close> sorting before the id of \<open>b\<close>
  under \<open>localeCompare\<close>, let \<open>d\<close> be the desired hold of \<open>k\<close>, and let the returned plan not
  be capped.  Then the actions of the plan about events of the key \<open>k\<close> are exactly: an update
  of \<open>a\<close> to \<open>d\<close>, unless \<open>a\<close> agrees with the desired event on summary, description,
  visibility, transparency and the four start and end values, followed by the delete of \<open>b\<close>.
  So there is one update at most, and it is of the primary; the primary is the first under
  \<open>localeCompare\<close>, which need not be the lexicographically first.
\<close>

theorem duplicate_collapse:
  assumes "consistent_cmp lc"
    and "mset (filter (\<lambda>ev. event_key ev = Some k) T) = {#a, b#}"
    and "lc (id_e a) (id_e b) < 0"
    and "map_of (desiredByKey D) k = Some d"
    and "planReconcile lc dp D T pol N = Inr p" and "\<not> capped p"
  shows "filter (touches_key k) (actions p)
         = (if summary a = summary (event d) \<and> description a = description (event d)
               \<and> visibility a = visibility (event d) \<and> transparency a = transparency (event d)
               \<and> dateTime (start_e a) = dateTime (start_e (event d))
               \<and> date (start_e a) = date (start_e (event d))
               \<and> dateTime (end_e a) = dateTime (end_e (event d))
               \<and> date (end_e a) = date (end_e (event d))
            then [] else [Update a d]) @ [Delete b]"
proof -
  let ?mbk = "managedByKey lc (filter is_managed T)"
  let ?dbk = "desiredByKey D"
  let ?U = "filter (\<lambda>e. \<not> is_managed e) T"
  have cs: "candidates lc dp D T pol = Inr (actions p)"
    using planReconcile_uncapped[OF assms(5,6)] .
  from candidates_shape[OF cs] obtain g where
    shape: "actions p = concat (map g (sort (map fst ?dbk)))
          @ concat (map (stale_key ?mbk ?dbk) (sort (map fst ?mbk)))"
    and g': "\<forall>k \<in> set (map fst ?dbk). desired_candidates dp pol ?mbk ?dbk ?U k = Inr (g k)"
    by blast
  have g: "desired_candidates dp pol ?mbk ?dbk ?U j = Inr (g j)" if "j \<in> set (map fst ?dbk)" for j
    using g' that by blast
  have kb: "x \<in> set (get_list ?mbk j) \<Longrightarrow> event_key x = Some j" for x j
    by (simp add: get_list_managedByKey set_bucket)
  have bk: "get_list ?mbk k = [a, b]"
    using bucket_pair[OF assms(1,2,3)] by (simp add: get_list_managedByKey)
  have kin: "k \<in> set (map fst ?dbk)"
    using assms(4) by (metis map_of_eq_None_iff option.distinct(1) set_map)
  have gk: "g k = (if isEquivalent a (event d) then [] else [Update a d]) @ [Delete b]"
    using g[OF kin] assms(4) bk by (auto simp: desired_candidates_def)
  have 1: "filter (touches_key k) (concat (map g (sort (map fst ?dbk)))) = filter (touches_key k) (g k)"
  proof (rule filter_concat_single)
    show "distinct (sort (map fst ?dbk))" by (simp add: distinct_desiredByKey)
    show "k \<in> set (sort (map fst ?dbk))" using kin by simp
    show "\<forall>x \<in> set (g j). \<not> touches_key k x" if "j \<in> set (sort (map fst ?dbk))" "j \<noteq> k" for j
    proof (rule not_touches_key)
      fix ev assume "ev \<in> set (targets (g j))"
      then have "event_key ev = Some j"
        using targets_desired_subset(1)[OF g, of j] that(1) kb by auto
      with that(2) show "event_key ev \<noteq> Some k" by simp
    qed
  qed
  have 2: "filter (touches_key k) (concat (map (stale_key ?mbk ?dbk) (sort (map fst ?mbk)))) = []"
  proof (rule filter_concat_none)
    fix j
    show "\<forall>x \<in> set (stale_key ?mbk ?dbk j). \<not> touches_key k x"
    proof (rule not_touches_key)
      fix ev assume "ev \<in> set (targets (stale_key ?mbk ?dbk j))"
      then have "event_key ev = Some j" "map_of ?dbk j = None"
        using kb[of ev j] by (auto simp: targets_stale_key split: if_splits)
      with assms(4) show "event_key ev \<noteq> Some k" by auto
    qed
  qed
  have "set (filter (\<lambda>ev. event_key ev = Some k) T) = {a, b}"
    using arg_cong[OF assms(2), of set_mset] by simp
  then have "event_key a = Some k" "event_key b = Some k" by auto
  then have 3: "filter (touches_key k) (g k) = g k"
    by (simp add: gk touches_key_def)
  have "filter (touches_key k) (actions p) = g k"
    by (simp only: shape filter_append 1 2 3 append_Nil2)
  then show ?thesis by (simp add: gk isEquivalent_def)
qed


theorem duplicate_collapse_witness:
  "consistent_cmp ex_collate
   \<and> ex_collate (js ''a'') (js ''B'') < 0
   \<and> planReconcile ex_collate ex_dp [desiredHold (ex_source (js ''a'') (js ''1''))]
        [ex_drifted (js ''B'') (ex_source (js ''a'') (js ''1'')), ex_unmanaged (js ''u1''),
         ex_drifted (js ''a'') (ex_source (js ''a'') (js ''1''))] Allow 10
     = Inr \<lparr>actions = [Update (ex_drifted (js ''a'') (ex_source (js ''a'') (js ''1''))) (desiredHold (ex_source (js ''a'') (js ''1''))),
                       Delete (ex_drifted (js ''B'') (ex_source (js ''a'') (js ''1'')))],
            desiredCount = 1, existingManagedCount = 2, capped = False\<rparr>
   \<and> filter (touches_key (holdKey (ex_source (js ''a'') (js ''1''))))
        [Update (ex_drifted (js ''a'') (ex_source (js ''a'') (js ''1''))) (desiredHold (ex_source (js ''a'') (js ''1''))),
         Delete (ex_drifted (js ''B'') (ex_source (js ''a'') (js ''1'')))]
     = [Update (ex_drifted (js ''a'') (ex_source (js ''a'') (js ''1''))) (desiredHold (ex_source (js ''a'') (js ''1''))),
        Delete (ex_drifted (js ''B'') (ex_source (js ''a'') (js ''1'')))]
   \<and> planReconcile ex_collate ex_dp [desiredHold (ex_source (js ''a'') (js ''1''))]
        [ex_drifted (js ''B'') (ex_source (js ''a'') (js ''1'')), ex_synced (js ''a'') (ex_source (js ''a'') (js ''1''))] Allow 10
     = Inr \<lparr>actions = [Delete (ex_drifted (js ''B'') (ex_source (js ''a'') (js ''1'')))],
            desiredCount = 1, existingManagedCount = 2, capped = False\<rparr>
   \<and> filter (touches_key (holdKey (ex_source (js ''a'') (js ''1''))))
        [Delete (ex_drifted (js ''B'') (ex_source (js ''a'') (js ''1'')))]
     = [Delete (ex_drifted (js ''B'') (ex_source (js ''a'') (js ''1'')))]"
proof -
  let ?k = "holdKey (ex_source (js ''a'') (js ''1''))"
  let ?a = "ex_drifted (js ''a'') (ex_source (js ''a'') (js ''1''))" and ?B = "ex_drifted (js ''B'') (ex_source (js ''a'') (js ''1''))"
  let ?s = "ex_synced (js ''a'') (ex_source (js ''a'') (js ''1''))"
  let ?d = "desiredHold (ex_source (js ''a'') (js ''1''))"
  let ?T = "[?B, ex_unmanaged (js ''u1''), ?a]" and ?T' = "[?B, ?s]"
  let ?p = "\<lparr>actions = [Update ?a ?d, Delete ?B], desiredCount = 1, existingManagedCount = 2,
             capped = False\<rparr>"
  let ?q = "\<lparr>actions = [Delete ?B], desiredCount = 1, existingManagedCount = 2,
             capped = False\<rparr>"
  have ka: "event_key ?a = Some ?k" and kB: "event_key ?B = Some ?k" and ks: "event_key ?s = Some ?k"
    by (simp_all add: event_key_def ex_drifted_def ex_synced_def timedEvent_def decode_encode)
  have ku: "event_key (ex_unmanaged (js ''u1'')) = None"
    by (simp add: event_key_def decode_ex_unmanaged)
  have 1: "mset (filter (\<lambda>ev. event_key ev = Some ?k) ?T) = {#?a, ?B#}"
    by (simp add: ka kB ku)
  have m1b: "mset (filter (\<lambda>ev. event_key ev = Some ?k) ?T') = {#?s, ?B#}"
    by (simp add: ks kB)
  have 2: "ex_collate (id_e ?a) (id_e ?B) < 0" "ex_collate (id_e ?s) (id_e ?B) < 0"
    by (simp_all add: ex_collate_a_B ex_drifted_def ex_synced_def timedEvent_def)
  have 3: "map_of (desiredByKey [?d]) ?k = Some ?d"
    by (simp add: desiredByKey_def desiredHold_def)
  have 4: "planReconcile ex_collate ex_dp [?d] ?T Allow 10 = Inr ?p"
    using decode_ex_unmanaged[of "(js ''u1'')"] by (simp add: plan_eval4 ex_collate_a_B)
  have p4b: "planReconcile ex_collate ex_dp [?d] ?T' Allow 10 = Inr ?q"
    by (simp add: plan_eval4 ex_collate_a_B ex_synced_def)
  have 5: "\<not> capped ?p" "\<not> capped ?q" by simp_all
  have "filter (touches_key ?k) (actions ?p) = [Update ?a ?d, Delete ?B]"
    unfolding duplicate_collapse[OF consistent_ex_collate 1 2(1) 3 4 5(1)]
    by (simp add: ex_drifted_def desiredHold_def timedEvent_def)
  moreover have "filter (touches_key ?k) (actions ?q) = [Delete ?B]"
    unfolding duplicate_collapse[OF consistent_ex_collate m1b 2(2) 3 p4b 5(2)]
    by (simp add: ex_synced_def desiredHold_def timedEvent_def)
  ultimately show ?thesis using consistent_ex_collate 2 4 p4b
    by (simp add: ex_drifted_def timedEvent_def)
qed

text \<open>The id \<open>B\<close> is the lexicographically first, and the event with the id \<open>a\<close> is the
  primary.\<close>

theorem primary_not_lexicographically_first_counterexample:
  "(js ''B'') < (js ''a'') \<and> ex_collate (js ''a'') (js ''B'') < 0
   \<and> event_key (ex_drifted (js ''B'') (ex_source (js ''a'') (js ''1''))) = Some (holdKey (ex_source (js ''a'') (js ''1'')))
   \<and> event_key (ex_drifted (js ''a'') (ex_source (js ''a'') (js ''1''))) = Some (holdKey (ex_source (js ''a'') (js ''1'')))
   \<and> planReconcile ex_collate ex_dp [desiredHold (ex_source (js ''a'') (js ''1''))]
        [ex_drifted (js ''B'') (ex_source (js ''a'') (js ''1'')), ex_drifted (js ''a'') (ex_source (js ''a'') (js ''1''))] Allow 10
     = Inr \<lparr>actions = [Update (ex_drifted (js ''a'') (ex_source (js ''a'') (js ''1''))) (desiredHold (ex_source (js ''a'') (js ''1''))),
                       Delete (ex_drifted (js ''B'') (ex_source (js ''a'') (js ''1'')))],
            desiredCount = 1, existingManagedCount = 2, capped = False\<rparr>"
proof -
  have k: "event_key (ex_drifted i (ex_source (js ''a'') (js ''1''))) = Some (holdKey (ex_source (js ''a'') (js ''1'')))" for i
    by (simp add: event_key_def ex_drifted_def timedEvent_def decode_encode)
  show ?thesis by (simp add: k ex_collate_a_B) (simp add: plan_eval4 ex_collate_a_B)
qed

subsection \<open>C2: determinism under input reordering\<close>

text \<open>
  C2, as the code has it.  Let \<open>localeCompare\<close> be a consistent comparator that tells the
  target ids apart, the target ids be pairwise distinct and the desired keys be pairwise distinct,
  and let the second input permute \<open>targetEvents\<close> and \<open>desiredHolds\<close> of the first.  Under the
  policy \<open>allow\<close>, or when the unmanaged target events keep their relative order, both calls
  return the same result.  In any case, when both calls return plans, these have the same
  actions in the same order with the same payloads, the \<open>blockingEventId\<close> of a
  \<open>skip_overlap\<close> apart, and the same \<open>desiredCount\<close>, \<open>existingManagedCount\<close> and \<open>capped\<close>.
\<close>

theorem plan_independent_of_input_order:
  assumes "consistent_cmp lc" "ids_told_apart lc T"
    and "distinct (map id_e T)" "distinct (map (\<lambda>d. holdKey (source d)) D)"
    and "mset T' = mset T" "mset D' = mset D"
  shows "(pol = Allow \<or> filter (\<lambda>e. \<not> is_managed e) T' = filter (\<lambda>e. \<not> is_managed e) T \<longrightarrow>
            planReconcile lc dp D' T' pol N = planReconcile lc dp D T pol N)
       \<and> (\<forall>p p'. planReconcile lc dp D T pol N = Inr p \<and> planReconcile lc dp D' T' pol N = Inr p' \<longrightarrow>
            map erase_blocker (actions p') = map erase_blocker (actions p)
            \<and> desiredCount p' = desiredCount p
            \<and> existingManagedCount p' = existingManagedCount p
            \<and> capped p' = capped p)"
proof -
  let ?mbk = "managedByKey lc (filter is_managed T)"
  let ?dbk = "desiredByKey D"
  let ?U = "filter (\<lambda>e. \<not> is_managed e) T" and ?U' = "filter (\<lambda>e. \<not> is_managed e) T'"
  note perm = candidates_perm[OF assms, of dp pol]
  have lenD: "length D' = length D" using assms(6) by (metis size_mset)
  have "mset (filter is_managed T') = mset (filter is_managed T)" using assms(5) by simp
  then have lenM: "length (filter is_managed T') = length (filter is_managed T)"
    by (metis size_mset)
  have a: "planReconcile lc dp D' T' pol N = planReconcile lc dp D T pol N"
    if "pol = Allow \<or> ?U' = ?U"
  proof -
    have "collect (desired_candidates dp pol ?mbk ?dbk ?U') (sort (map fst ?dbk))
        = collect (desired_candidates dp pol ?mbk ?dbk ?U) (sort (map fst ?dbk))"
      using that by (intro collect_cong) (auto simp: desired_candidates_Allow)
    then have "candidates lc dp D' T' pol = candidates lc dp D T pol"
      unfolding perm candidates_unfold[of lc dp D T pol] by simp
    then show ?thesis by (simp add: planReconcile_candidates lenD lenM split: sum.splits)
  qed
  have b: "map erase_blocker (actions p') = map erase_blocker (actions p)
            \<and> desiredCount p' = desiredCount p
            \<and> existingManagedCount p' = existingManagedCount p
            \<and> capped p' = capped p"
    if "planReconcile lc dp D T pol N = Inr p \<and> planReconcile lc dp D' T' pol N = Inr p'" for p p'
  proof -
    from that obtain cs where cs: "candidates lc dp D T pol = Inr cs"
      "actions p = admit (nat N) cs" "desiredCount p = length D"
      "existingManagedCount p = length (filter is_managed T)"
      "capped p = (nat N < length (mutations cs))"
      using planReconcile_Inr by blast
    from that obtain cs' where cs': "candidates lc dp D' T' pol = Inr cs'"
      "actions p' = admit (nat N) cs'" "desiredCount p' = length D'"
      "existingManagedCount p' = length (filter is_managed T')"
      "capped p' = (nat N < length (mutations cs'))"
      using planReconcile_Inr by blast
    from cs(1) obtain xs where xs: "collect (desired_candidates dp pol ?mbk ?dbk ?U) (sort (map fst ?dbk)) = Inr xs"
      "cs = xs @ stale_candidates ?mbk ?dbk"
      unfolding candidates_unfold[of lc dp D T pol] by (auto split: sum.splits)
    from cs'(1) obtain xs' where xs': "collect (desired_candidates dp pol ?mbk ?dbk ?U') (sort (map fst ?dbk)) = Inr xs'"
      "cs' = xs' @ stale_candidates ?mbk ?dbk"
      unfolding perm by (auto split: sum.splits)
    have "set T' = set T" using assms(5) by (metis set_mset_mset)
    then have sU: "set ?U' = set ?U" by simp
    have "map erase_blocker xs' = map erase_blocker xs"
      using xs(1) xs'(1)
      by (rule collect_erase[rotated]) (rule desired_candidates_erase[OF sU])
    then have e: "map erase_blocker cs' = map erase_blocker cs" by (simp add: xs xs')
    then have "map erase_blocker (actions p') = map erase_blocker (actions p)"
      by (simp add: cs cs' admit_erase[symmetric])
    moreover have "length (mutations cs') = length (mutations cs)"
      using arg_cong[OF e, of "\<lambda>as. length (mutations as)"]
      by (simp only: length_mutations_erase)
    ultimately show ?thesis by (simp add: cs cs' lenD lenM)
  qed
  from a b show ?thesis by blast
qed

theorem plan_independent_of_input_order_witness:
  "consistent_cmp ex_lc
   \<and> ids_told_apart ex_lc [ex_drifted (js ''m2'') (ex_source (js ''a'') (js ''1'')), ex_unmanaged (js ''u1''),
         ex_drifted (js ''m1'') (ex_source (js ''a'') (js ''1''))]
   \<and> distinct (map id_e [ex_drifted (js ''m2'') (ex_source (js ''a'') (js ''1'')), ex_unmanaged (js ''u1''),
         ex_drifted (js ''m1'') (ex_source (js ''a'') (js ''1''))])
   \<and> distinct (map (\<lambda>d. holdKey (source d))
        [desiredHold (ex_source (js ''fresh'') (js ''1'')), desiredHold (ex_source (js ''a'') (js ''1''))])
   \<and> mset [ex_drifted (js ''m1'') (ex_source (js ''a'') (js ''1'')), ex_drifted (js ''m2'') (ex_source (js ''a'') (js ''1'')),
            ex_unmanaged (js ''u1'')]
     = mset [ex_drifted (js ''m2'') (ex_source (js ''a'') (js ''1'')), ex_unmanaged (js ''u1''),
         ex_drifted (js ''m1'') (ex_source (js ''a'') (js ''1''))]
   \<and> mset [desiredHold (ex_source (js ''a'') (js ''1'')), desiredHold (ex_source (js ''fresh'') (js ''1''))]
     = mset [desiredHold (ex_source (js ''fresh'') (js ''1'')), desiredHold (ex_source (js ''a'') (js ''1''))]
   \<and> planReconcile ex_lc ex_dp
        [desiredHold (ex_source (js ''a'') (js ''1'')), desiredHold (ex_source (js ''fresh'') (js ''1''))]
        [ex_drifted (js ''m1'') (ex_source (js ''a'') (js ''1'')), ex_drifted (js ''m2'') (ex_source (js ''a'') (js ''1'')),
            ex_unmanaged (js ''u1'')] Allow 10
     = planReconcile ex_lc ex_dp
        [desiredHold (ex_source (js ''fresh'') (js ''1'')), desiredHold (ex_source (js ''a'') (js ''1''))]
        [ex_drifted (js ''m2'') (ex_source (js ''a'') (js ''1'')), ex_unmanaged (js ''u1''),
         ex_drifted (js ''m1'') (ex_source (js ''a'') (js ''1''))] Allow 10"
proof -
  let ?T = "[ex_drifted (js ''m2'') (ex_source (js ''a'') (js ''1'')), ex_unmanaged (js ''u1''),
         ex_drifted (js ''m1'') (ex_source (js ''a'') (js ''1''))]"
  let ?T' = "[ex_drifted (js ''m1'') (ex_source (js ''a'') (js ''1'')), ex_drifted (js ''m2'') (ex_source (js ''a'') (js ''1'')),
            ex_unmanaged (js ''u1'')]"
  let ?D = "[desiredHold (ex_source (js ''fresh'') (js ''1'')), desiredHold (ex_source (js ''a'') (js ''1''))]"
  let ?D' = "[desiredHold (ex_source (js ''a'') (js ''1'')), desiredHold (ex_source (js ''fresh'') (js ''1''))]"
  have 1: "distinct (map id_e ?T)"
    by (simp add: ex_drifted_def ex_unmanaged_def timedEvent_def)
  have 2: "distinct (map (\<lambda>d. holdKey (source d)) ?D)"
    by (simp add: desiredHold_def holdKey_def ex_source_def)
  have 3: "mset ?T' = mset ?T" by (simp add: add_mset_commute)
  have 4: "mset ?D' = mset ?D" by (simp add: add_mset_commute)
  from plan_independent_of_input_order[OF consistent_ex_lc told_apart_ex_lc 1 2 3 4,
      of Allow ex_dp 10, THEN conjunct1]
  have "planReconcile ex_lc ex_dp ?D' ?T' Allow 10 = planReconcile ex_lc ex_dp ?D ?T Allow 10"
    by simp
  with consistent_ex_lc told_apart_ex_lc[of ?T] 1 2 3 4 show ?thesis by blast
qed

text \<open>The unmanaged events are searched in input order: with two of them overlapping the
  desired event, the order of \<open>targetEvents\<close> decides the \<open>blockingEventId\<close>.  Of two desired
  holds with one key the later wins, and of two target events with one id and one key the
  earlier is the primary, so there the order of the input decides the plan.\<close>

theorem plan_depends_on_order_counterexample:
  "mset [ex_unmanaged (js ''u2''), ex_unmanaged (js ''u1'')] = mset [ex_unmanaged (js ''u1''), ex_unmanaged (js ''u2'')]
   \<and> planReconcile ex_lc ex_dp [desiredHold (ex_source (js ''a'') (js ''1''))]
        [ex_unmanaged (js ''u1''), ex_unmanaged (js ''u2'')] Skip 10
     = Inr \<lparr>actions = [SkipOverlap (desiredHold (ex_source (js ''a'') (js ''1''))) (js ''u1'')], desiredCount = 1,
            existingManagedCount = 0, capped = False\<rparr>
   \<and> planReconcile ex_lc ex_dp [desiredHold (ex_source (js ''a'') (js ''1''))]
        [ex_unmanaged (js ''u2''), ex_unmanaged (js ''u1'')] Skip 10
     = Inr \<lparr>actions = [SkipOverlap (desiredHold (ex_source (js ''a'') (js ''1''))) (js ''u2'')], desiredCount = 1,
            existingManagedCount = 0, capped = False\<rparr>
   \<and> desiredHold (ex_source (js ''a'') (js ''1'')) \<noteq> ex_renamed (desiredHold (ex_source (js ''a'') (js ''1'')))
   \<and> planReconcile ex_lc ex_dp
        [desiredHold (ex_source (js ''a'') (js ''1'')), ex_renamed (desiredHold (ex_source (js ''a'') (js ''1'')))] [] Allow 10
     = Inr \<lparr>actions = [Create (ex_renamed (desiredHold (ex_source (js ''a'') (js ''1''))))], desiredCount = 2,
            existingManagedCount = 0, capped = False\<rparr>
   \<and> planReconcile ex_lc ex_dp
        [ex_renamed (desiredHold (ex_source (js ''a'') (js ''1''))), desiredHold (ex_source (js ''a'') (js ''1''))] [] Allow 10
     = Inr \<lparr>actions = [Create (desiredHold (ex_source (js ''a'') (js ''1'')))], desiredCount = 2,
            existingManagedCount = 0, capped = False\<rparr>
   \<and> ex_drifted (js ''m1'') (ex_source (js ''a'') (js ''1''))
       \<noteq> (ex_drifted (js ''m1'') (ex_source (js ''a'') (js ''1'')))\<lparr>summary := Some (js ''Other'')\<rparr>
   \<and> planReconcile ex_lc ex_dp [desiredHold (ex_source (js ''a'') (js ''1''))]
        [ex_drifted (js ''m1'') (ex_source (js ''a'') (js ''1'')),
         (ex_drifted (js ''m1'') (ex_source (js ''a'') (js ''1'')))\<lparr>summary := Some (js ''Other'')\<rparr>] Allow 10
     = Inr \<lparr>actions = [Update (ex_drifted (js ''m1'') (ex_source (js ''a'') (js ''1''))) (desiredHold (ex_source (js ''a'') (js ''1''))),
                       Delete ((ex_drifted (js ''m1'') (ex_source (js ''a'') (js ''1'')))\<lparr>summary := Some (js ''Other'')\<rparr>)],
            desiredCount = 1, existingManagedCount = 2, capped = False\<rparr>
   \<and> planReconcile ex_lc ex_dp [desiredHold (ex_source (js ''a'') (js ''1''))]
        [(ex_drifted (js ''m1'') (ex_source (js ''a'') (js ''1'')))\<lparr>summary := Some (js ''Other'')\<rparr>,
         ex_drifted (js ''m1'') (ex_source (js ''a'') (js ''1''))] Allow 10
     = Inr \<lparr>actions = [Update ((ex_drifted (js ''m1'') (ex_source (js ''a'') (js ''1'')))\<lparr>summary := Some (js ''Other'')\<rparr>)
                         (desiredHold (ex_source (js ''a'') (js ''1''))),
                       Delete (ex_drifted (js ''m1'') (ex_source (js ''a'') (js ''1'')))],
            desiredCount = 1, existingManagedCount = 2, capped = False\<rparr>"
proof -
  have 1: "planReconcile ex_lc ex_dp [desiredHold (ex_source (js ''a'') (js ''1''))]
        [ex_unmanaged (js ''u1''), ex_unmanaged (js ''u2'')] Skip 10
     = Inr \<lparr>actions = [SkipOverlap (desiredHold (ex_source (js ''a'') (js ''1''))) (js ''u1'')], desiredCount = 1,
            existingManagedCount = 0, capped = False\<rparr>"
    by (simp add: plan_eval_unmanaged)
  have 2: "planReconcile ex_lc ex_dp [desiredHold (ex_source (js ''a'') (js ''1''))]
        [ex_unmanaged (js ''u2''), ex_unmanaged (js ''u1'')] Skip 10
     = Inr \<lparr>actions = [SkipOverlap (desiredHold (ex_source (js ''a'') (js ''1''))) (js ''u2'')], desiredCount = 1,
            existingManagedCount = 0, capped = False\<rparr>"
    by (simp add: plan_eval_unmanaged)
  have 3: "desiredHold (ex_source (js ''a'') (js ''1'')) \<noteq> ex_renamed (desiredHold (ex_source (js ''a'') (js ''1'')))"
    by (simp add: ex_renamed_def desiredHold_def timedEvent_def DesiredHold.equality GogEvent.equality)
  have 4: "planReconcile ex_lc ex_dp
        [desiredHold (ex_source (js ''a'') (js ''1'')), ex_renamed (desiredHold (ex_source (js ''a'') (js ''1'')))] [] Allow 10
     = Inr \<lparr>actions = [Create (ex_renamed (desiredHold (ex_source (js ''a'') (js ''1''))))], desiredCount = 2,
            existingManagedCount = 0, capped = False\<rparr>"
    by (simp add: plan_eval ex_renamed_def)
  have 5: "planReconcile ex_lc ex_dp
        [ex_renamed (desiredHold (ex_source (js ''a'') (js ''1''))), desiredHold (ex_source (js ''a'') (js ''1''))] [] Allow 10
     = Inr \<lparr>actions = [Create (desiredHold (ex_source (js ''a'') (js ''1'')))], desiredCount = 2,
            existingManagedCount = 0, capped = False\<rparr>"
    by (simp add: plan_eval ex_renamed_def)
  have 6: "ex_drifted (js ''m1'') (ex_source (js ''a'') (js ''1''))
       \<noteq> (ex_drifted (js ''m1'') (ex_source (js ''a'') (js ''1'')))\<lparr>summary := Some (js ''Other'')\<rparr>"
    by (simp add: ex_drifted_def timedEvent_def)
  have 7: "planReconcile ex_lc ex_dp [desiredHold (ex_source (js ''a'') (js ''1''))]
        [ex_drifted (js ''m1'') (ex_source (js ''a'') (js ''1'')),
         (ex_drifted (js ''m1'') (ex_source (js ''a'') (js ''1'')))\<lparr>summary := Some (js ''Other'')\<rparr>] Allow 10
     = Inr \<lparr>actions = [Update (ex_drifted (js ''m1'') (ex_source (js ''a'') (js ''1''))) (desiredHold (ex_source (js ''a'') (js ''1''))),
                       Delete ((ex_drifted (js ''m1'') (ex_source (js ''a'') (js ''1'')))\<lparr>summary := Some (js ''Other'')\<rparr>)],
            desiredCount = 1, existingManagedCount = 2, capped = False\<rparr>"
    by (simp add: plan_eval)
  have 8: "planReconcile ex_lc ex_dp [desiredHold (ex_source (js ''a'') (js ''1''))]
        [(ex_drifted (js ''m1'') (ex_source (js ''a'') (js ''1'')))\<lparr>summary := Some (js ''Other'')\<rparr>,
         ex_drifted (js ''m1'') (ex_source (js ''a'') (js ''1''))] Allow 10
     = Inr \<lparr>actions = [Update ((ex_drifted (js ''m1'') (ex_source (js ''a'') (js ''1'')))\<lparr>summary := Some (js ''Other'')\<rparr>)
                         (desiredHold (ex_source (js ''a'') (js ''1''))),
                       Delete (ex_drifted (js ''m1'') (ex_source (js ''a'') (js ''1'')))],
            desiredCount = 1, existingManagedCount = 2, capped = False\<rparr>"
    by (simp add: plan_eval)
  from 1 2 3 4 5 6 7 8 show ?thesis by (simp only: mset.simps add_mset_commute simp_thms)
qed

subsection \<open>C1: planning again after the plan was applied\<close>

text \<open>
  C1, as the code has it.  Let a plan be returned that is not capped and holds no
  \<open>skip_overlap\<close>, and let every desired hold be tagged (the description of its event decodes
  to a \<open>SourceRef\<close> with the hold's key).  Then planning again, for the same desired holds and
  the target events with the plan's effects applied, returns a plan with an empty action
  list, not capped.
\<close>

theorem replanning_after_apply:
  assumes "planReconcile lc dp D T pol N = Inr p"
    and "\<not> capped p"
    and "skips (actions p) = []"
    and "\<forall>d \<in> set D. tagged d"
  shows "planReconcile lc dp D (applyPlan (actions p) T) pol N
     = Inr \<lparr>actions = [], desiredCount = length D,
            existingManagedCount = length (filter is_managed (applyPlan (actions p) T)),
            capped = False\<rparr>"
proof -
  have "candidates lc dp D (applyPlan (actions p) T) pol = Inr []"
    by (rule candidates_converged) (rule buckets_after_plan[OF assms])
  then show ?thesis by (simp add: planReconcile_candidates mutations_def)
qed

theorem replanning_after_apply_witness:
  "planReconcile ex_lc ex_dp [desiredHold (ex_source (js ''fresh'') (js ''1'')), desiredHold (ex_source (js ''a'') (js ''1''))]
     [ex_drifted (js ''m3'') (ex_source (js ''stale'') (js ''2'')), ex_drifted (js ''m2'') (ex_source (js ''a'') (js ''1'')),
      ex_drifted (js ''m1'') (ex_source (js ''a'') (js ''1'')), ex_unmanaged (js ''u1'')] Allow 10
   = Inr \<lparr>actions = [Update (ex_drifted (js ''m1'') (ex_source (js ''a'') (js ''1''))) (desiredHold (ex_source (js ''a'') (js ''1''))),
                     Delete (ex_drifted (js ''m2'') (ex_source (js ''a'') (js ''1''))),
                     Create (desiredHold (ex_source (js ''fresh'') (js ''1''))),
                     Delete (ex_drifted (js ''m3'') (ex_source (js ''stale'') (js ''2'')))],
          desiredCount = 2, existingManagedCount = 3, capped = False\<rparr>
   \<and> applyPlan [Update (ex_drifted (js ''m1'') (ex_source (js ''a'') (js ''1''))) (desiredHold (ex_source (js ''a'') (js ''1''))),
                     Delete (ex_drifted (js ''m2'') (ex_source (js ''a'') (js ''1''))),
                     Create (desiredHold (ex_source (js ''fresh'') (js ''1''))),
                     Delete (ex_drifted (js ''m3'') (ex_source (js ''stale'') (js ''2'')))]
       [ex_drifted (js ''m3'') (ex_source (js ''stale'') (js ''2'')), ex_drifted (js ''m2'') (ex_source (js ''a'') (js ''1'')),
        ex_drifted (js ''m1'') (ex_source (js ''a'') (js ''1'')), ex_unmanaged (js ''u1'')]
     = [event (desiredHold (ex_source (js ''a'') (js ''1''))), ex_unmanaged (js ''u1''),
        event (desiredHold (ex_source (js ''fresh'') (js ''1'')))]
   \<and> planReconcile ex_lc ex_dp [desiredHold (ex_source (js ''fresh'') (js ''1'')), desiredHold (ex_source (js ''a'') (js ''1''))]
       [event (desiredHold (ex_source (js ''a'') (js ''1''))), ex_unmanaged (js ''u1''),
        event (desiredHold (ex_source (js ''fresh'') (js ''1'')))] Allow 10
     = Inr \<lparr>actions = [], desiredCount = 2, existingManagedCount = 2, capped = False\<rparr>"
proof -
  let ?D = "[desiredHold (ex_source (js ''fresh'') (js ''1'')), desiredHold (ex_source (js ''a'') (js ''1''))]"
  let ?T = "[ex_drifted (js ''m3'') (ex_source (js ''stale'') (js ''2'')), ex_drifted (js ''m2'') (ex_source (js ''a'') (js ''1'')),
      ex_drifted (js ''m1'') (ex_source (js ''a'') (js ''1'')), ex_unmanaged (js ''u1'')]"
  let ?as = "[Update (ex_drifted (js ''m1'') (ex_source (js ''a'') (js ''1''))) (desiredHold (ex_source (js ''a'') (js ''1''))),
                     Delete (ex_drifted (js ''m2'') (ex_source (js ''a'') (js ''1''))),
                     Create (desiredHold (ex_source (js ''fresh'') (js ''1''))),
                     Delete (ex_drifted (js ''m3'') (ex_source (js ''stale'') (js ''2'')))]"
  let ?p = "\<lparr>actions = ?as, desiredCount = 2, existingManagedCount = 3, capped = False\<rparr>"
  let ?T' = "[event (desiredHold (ex_source (js ''a'') (js ''1''))), ex_unmanaged (js ''u1''),
        event (desiredHold (ex_source (js ''fresh'') (js ''1'')))]"
  have p: "planReconcile ex_lc ex_dp ?D ?T Allow 10 = Inr ?p"
    using decode_ex_unmanaged[of "(js ''u1'')"] by (simp add: plan_eval4)
  have c: "\<not> capped ?p" by simp
  have s: "skips (actions ?p) = []" by (simp add: skips_def)
  have t: "\<forall>d \<in> set ?D. tagged d" by (simp add: tagged_desiredHold)
  have a: "applyPlan (actions ?p) ?T = ?T'"
    by (simp add: applyPlan_def ex_drifted_def ex_unmanaged_def timedEvent_def desiredHold_def)
  have m: "length (filter is_managed ?T') = 2"
    using decode_ex_unmanaged[of "(js ''u1'')"]
    by (simp add: is_managed_def desiredHold_def timedEvent_def decode_encode)
  from replanning_after_apply[OF p c s t] have
    "planReconcile ex_lc ex_dp ?D ?T' Allow 10
     = Inr \<lparr>actions = [], desiredCount = 2, existingManagedCount = 2, capped = False\<rparr>"
    unfolding a m by simp
  with p a show ?thesis by simp
qed

text \<open>Each of the three conditions is needed: a capped plan leaves work for the next run, a
  skipped hold is skipped again, and a desired event without its tag is created again.\<close>

theorem replanning_not_empty_counterexample:
  "planReconcile ex_lc ex_dp [desiredHold (ex_source (js ''a'') (js ''1'')), desiredHold (ex_source (js ''b'') (js ''1''))]
       [] Allow 1
     = Inr \<lparr>actions = [Create (desiredHold (ex_source (js ''a'') (js ''1'')))], desiredCount = 2,
            existingManagedCount = 0, capped = True\<rparr>
   \<and> applyPlan [Create (desiredHold (ex_source (js ''a'') (js ''1'')))] []
     = [event (desiredHold (ex_source (js ''a'') (js ''1'')))]
   \<and> planReconcile ex_lc ex_dp [desiredHold (ex_source (js ''a'') (js ''1'')), desiredHold (ex_source (js ''b'') (js ''1''))]
       [event (desiredHold (ex_source (js ''a'') (js ''1'')))] Allow 1
     = Inr \<lparr>actions = [Create (desiredHold (ex_source (js ''b'') (js ''1'')))], desiredCount = 2,
            existingManagedCount = 1, capped = False\<rparr>
   \<and> planReconcile ex_lc ex_dp [desiredHold (ex_source (js ''a'') (js ''1''))] [ex_unmanaged (js ''u1'')] Skip 10
     = Inr \<lparr>actions = [SkipOverlap (desiredHold (ex_source (js ''a'') (js ''1''))) (js ''u1'')], desiredCount = 1,
            existingManagedCount = 0, capped = False\<rparr>
   \<and> applyPlan [SkipOverlap (desiredHold (ex_source (js ''a'') (js ''1''))) (js ''u1'')] [ex_unmanaged (js ''u1'')]
     = [ex_unmanaged (js ''u1'')]
   \<and> planReconcile ex_lc ex_dp [ex_untagged] [] Allow 10
     = Inr \<lparr>actions = [Create ex_untagged], desiredCount = 1,
            existingManagedCount = 0, capped = False\<rparr>
   \<and> applyPlan [Create ex_untagged] [] = [event ex_untagged]
   \<and> planReconcile ex_lc ex_dp [ex_untagged] [event ex_untagged] Allow 10
     = Inr \<lparr>actions = [Create ex_untagged], desiredCount = 1,
            existingManagedCount = 0, capped = False\<rparr>"
proof -
  have u: "decodeSourceRef (description (event ex_untagged)) = None"
    by (simp add: ex_untagged_def timedEvent_def decodeSourceRef_def)
  have 1: "planReconcile ex_lc ex_dp [desiredHold (ex_source (js ''a'') (js ''1'')), desiredHold (ex_source (js ''b'') (js ''1''))]
       [] Allow 1
     = Inr \<lparr>actions = [Create (desiredHold (ex_source (js ''a'') (js ''1'')))], desiredCount = 2,
            existingManagedCount = 0, capped = True\<rparr>"
    by (simp add: plan_eval)
  have 2: "planReconcile ex_lc ex_dp [desiredHold (ex_source (js ''a'') (js ''1'')), desiredHold (ex_source (js ''b'') (js ''1''))]
       [event (desiredHold (ex_source (js ''a'') (js ''1'')))] Allow 1
     = Inr \<lparr>actions = [Create (desiredHold (ex_source (js ''b'') (js ''1'')))], desiredCount = 2,
            existingManagedCount = 1, capped = False\<rparr>"
    by (simp add: plan_eval)
  have 3: "planReconcile ex_lc ex_dp [desiredHold (ex_source (js ''a'') (js ''1''))] [ex_unmanaged (js ''u1'')] Skip 10
     = Inr \<lparr>actions = [SkipOverlap (desiredHold (ex_source (js ''a'') (js ''1''))) (js ''u1'')], desiredCount = 1,
            existingManagedCount = 0, capped = False\<rparr>"
    using decode_ex_unmanaged[of "(js ''u1'')"]
    by (simp add: plan_eval_unmanaged)
  have 4: "planReconcile ex_lc ex_dp [ex_untagged] [] Allow 10
     = Inr \<lparr>actions = [Create ex_untagged], desiredCount = 1,
            existingManagedCount = 0, capped = False\<rparr>"
    by (simp add: plan_eval)
  have 5: "planReconcile ex_lc ex_dp [ex_untagged] [event ex_untagged] Allow 10
     = Inr \<lparr>actions = [Create ex_untagged], desiredCount = 1,
            existingManagedCount = 0, capped = False\<rparr>"
    using u by (simp add: plan_eval)
  from 1 2 3 4 5 show ?thesis by (simp add: applyPlan_def)
qed

end
